theory Spec2Isabelle
  imports Main "HOL-Library.Word" "HOL-Library.Multiset" "HOL-Library.Monad_Syntax"
    "HOL-Library.Signed_Division"
begin

section \<open>Generic CPU primitives of \<open>include/opennmt/primitives/cpu_generic.h\<close>\<close>

text \<open>
  The header works on raw pointers and explicit element counts. A buffer is modelled as
  the list of the elements that the pointer may address; an access outside the list is
  undefined behaviour in C++ and is the value \<open>None\<close> here, so every primitive returns
  an \<open>option\<close>. Output buffers are passed in and returned updated. Distinct pointer
  arguments are distinct lists: the model does not cover calls whose buffers overlap.
  Counts and indices (\<open>size_t\<close>, \<open>IndexType\<close>) are natural numbers, that is, products
  such as \<open>i * m * k\<close> are assumed not to exceed the width of \<open>size_t\<close>; element
  types are type parameters, fixed-width where a claim depends on the width, and
  linearly ordered where they are compared (no NaN). The algorithms of the C++ standard
  library that the header calls are modelled after the standard, each where it is used.
\<close>

subsection \<open>Memory accesses and counted loops\<close>

definition rd :: "'a list \<Rightarrow> nat \<Rightarrow> 'a option" where
  "rd xs i = (if i < length xs then Some (xs ! i) else None)"

definition wr :: "'a list \<Rightarrow> nat \<Rightarrow> 'a \<Rightarrow> 'a list option" where
  "wr xs i v = (if i < length xs then Some (xs[i := v]) else None)"

text \<open>\<open>for (size_t i = i0; i < n; ++i) body\<close>, the body acting on the state \<open>s\<close>.\<close>

function for_loop :: "nat \<Rightarrow> nat \<Rightarrow> (nat \<Rightarrow> 's \<Rightarrow> 's option) \<Rightarrow> 's \<Rightarrow> 's option" where
  "for_loop i n body s =
     (if i < n then (case body i s of None \<Rightarrow> None | Some s' \<Rightarrow> for_loop (Suc i) n body s')
      else Some s)"
  by pat_completeness auto
termination
  by (relation "measure (\<lambda>(i, n, body, s). n - i)") auto

declare for_loop.simps [simp del]

subsection \<open>Elementwise transforms\<close>

definition binary_transform ::
  "'a list \<Rightarrow> 'a list \<Rightarrow> 'b list \<Rightarrow> nat \<Rightarrow> ('a \<Rightarrow> 'a \<Rightarrow> 'b) \<Rightarrow> 'b list option" where
  "binary_transform a b c sz func =
     for_loop 0 sz (\<lambda>i c. do { v1 \<leftarrow> rd a i; v2 \<leftarrow> rd b i; wr c i (func v1 v2) }) c"

text \<open>The overloads \<open>add(a, b, c, size)\<close> and \<open>sub(a, b, c, size)\<close>.\<close>

definition add :: "'a::plus list \<Rightarrow> 'a list \<Rightarrow> 'a list \<Rightarrow> nat \<Rightarrow> 'a list option" where
  "add a b c sz = binary_transform a b c sz (\<lambda>v1 v2. v1 + v2)"

definition sub :: "'a::minus list \<Rightarrow> 'a list \<Rightarrow> 'a list \<Rightarrow> nat \<Rightarrow> 'a list option" where
  "sub a b c sz = binary_transform a b c sz (\<lambda>v1 v2. v1 - v2)"

subsection \<open>Reductions\<close>

text \<open>
  \<open>std::accumulate(first, last, init)\<close> of the C++ standard library:
  \<open>for (; first != last; ++first) init = init + *first; return init;\<close>
\<close>

definition accumulate :: "'a::plus list \<Rightarrow> nat \<Rightarrow> nat \<Rightarrow> 'a \<Rightarrow> 'a option" where
  "accumulate array first lst init =
     for_loop first lst (\<lambda>i acc. do { v \<leftarrow> rd array i; Some (acc + v) }) init"

definition sum_array :: "'a::{plus,zero} list \<Rightarrow> nat \<Rightarrow> 'a option" where
  "sum_array array sz = accumulate array 0 sz 0"

text \<open>
  \<open>mean\<close> at \<open>T = int32_t\<close> on a platform with a 64-bit \<open>size_t\<close>. In
  \<open>sum(array, size) / size\<close> the operands are an \<open>int\<close> and an \<open>unsigned long\<close>: the
  usual arithmetic conversions turn the sum into a \<open>size_t\<close> (sign extension, the value
  modulo \<open>2^64\<close>), the division is the unsigned one, and the quotient is converted back
  to \<open>T\<close> by the \<open>return\<close> (the low 32 bits). Division by zero is undefined.
\<close>

type_synonym int32_t = "32 word"
type_synonym size_t = "64 word"

definition mean :: "int32_t list \<Rightarrow> size_t \<Rightarrow> int32_t option" where
  "mean array sz =
     do { s \<leftarrow> sum_array array (unat sz);
          if sz = 0 then None else Some (ucast ((scast s :: size_t) div sz)) }"

text \<open>What the specification asks of \<open>mean\<close>: the sum divided by the size, truncating.\<close>

definition mean_truncating :: "int32_t list \<Rightarrow> size_t \<Rightarrow> int32_t option" where
  "mean_truncating array sz =
     do { s \<leftarrow> sum_array array (unat sz);
          if sz = 0 then None else Some (word_of_int (sint s sdiv uint sz)) }"

text \<open>
  \<open>std::max_element(first, last)\<close> of the C++ standard library returns the first iterator
  \<open>i\<close> such that no \<open>j\<close> of the range has \<open>*i < *j\<close>, and \<open>last\<close> for an empty range:
  \<open>if (first == last) return last; result = first;
    while (++first != last) if (*result < *first) result = first; return result;\<close>
\<close>

definition max_element :: "'a::linorder list \<Rightarrow> nat \<Rightarrow> nat option" where
  "max_element array sz =
     (if sz = 0 then Some sz
      else for_loop 1 sz
             (\<lambda>first result. do { r \<leftarrow> rd array result; f \<leftarrow> rd array first;
                                   Some (if r < f then first else result) }) 0)"

definition max_array :: "'a::linorder list \<Rightarrow> nat \<Rightarrow> 'a option" where
  "max_array array sz = do { i \<leftarrow> max_element array sz; rd array i }"

subsection \<open>Top-k selection\<close>

text \<open>\<open>std::iota(first, last, 0)\<close>: \<open>for (; first != last; ++first, ++value) *first = value;\<close>\<close>

definition iota :: "nat list \<Rightarrow> nat \<Rightarrow> nat list option" where
  "iota indices sz = for_loop 0 sz (\<lambda>i ind. wr ind i i) indices"

text \<open>
  \<open>std::partial_sort\<close> belongs to the C++ standard library, whose implementation is
  not part of the repository and whose result is not unique (the order of equivalent
  elements and of the tail is unspecified). \<open>topk\<close> therefore takes the library
  function as the parameter \<open>ps\<close>: \<open>ps cmp k xs\<close> is the content of the range
  \<open>[first, last)\<close> after \<open>std::partial_sort(first, first + k, last, cmp)\<close> on content
  \<open>xs\<close>. The comparator reads \<open>x\<close> at index values below \<open>size\<close>, so a buffer \<open>x\<close>
  shorter than \<open>size\<close> is undefined behaviour, as is \<open>k > size\<close> (\<open>middle\<close> outside
  the range).
\<close>

type_synonym 'i partial_sort_fn = "('i \<Rightarrow> 'i \<Rightarrow> bool) \<Rightarrow> nat \<Rightarrow> 'i list \<Rightarrow> 'i list"

definition topk ::
  "nat partial_sort_fn \<Rightarrow> 'a::linorder list \<Rightarrow> nat list \<Rightarrow> nat \<Rightarrow> nat \<Rightarrow> nat list option" where
  "topk ps x indices k sz =
     do { ind \<leftarrow> iota indices sz;
          if k \<le> sz \<and> sz \<le> length x
          then Some (ps (\<lambda>i1 i2. x ! i1 > x ! i2) k (take sz ind) @ drop sz ind)
          else None }"

text \<open>
  The requirements of the standard on \<open>std::partial_sort\<close>: for a comparator that is a
  strict weak ordering and \<open>k\<close> within the range, the result is a rearrangement of the
  input, its first \<open>k\<close> elements are sorted with respect to \<open>cmp\<close> (no later element
  is \<open>cmp\<close>-smaller than an earlier one) and no element of the tail is
  \<open>cmp\<close>-smaller than one of the first \<open>k\<close>.
\<close>

definition strict_weak_order :: "('i \<Rightarrow> 'i \<Rightarrow> bool) \<Rightarrow> bool" where
  "strict_weak_order cmp \<longleftrightarrow>
     (\<forall>a. \<not> cmp a a) \<and>
     (\<forall>a b c. cmp a b \<and> cmp b c \<longrightarrow> cmp a c) \<and>
     (\<forall>a b c. \<not> cmp a b \<and> \<not> cmp b a \<and> \<not> cmp b c \<and> \<not> cmp c b
         \<longrightarrow> \<not> cmp a c \<and> \<not> cmp c a)"

definition partial_sort_post :: "('i \<Rightarrow> 'i \<Rightarrow> bool) \<Rightarrow> nat \<Rightarrow> 'i list \<Rightarrow> 'i list \<Rightarrow> bool" where
  "partial_sort_post cmp k xs ys \<longleftrightarrow>
     mset ys = mset xs \<and>
     sorted_wrt (\<lambda>a b. \<not> cmp b a) (take k ys) \<and>
     (\<forall>a \<in> set (take k ys). \<forall>b \<in> set (drop k ys). \<not> cmp b a)"

definition partial_sort_contract :: "'i partial_sort_fn \<Rightarrow> bool" where
  "partial_sort_contract ps \<longleftrightarrow>
     (\<forall>cmp k xs. strict_weak_order cmp \<and> k \<le> length xs
        \<longrightarrow> partial_sort_post cmp k xs (ps cmp k xs))"

text \<open>
  One conforming \<open>std::partial_sort\<close>, by repeated selection of a least element: it
  shows that the contract can be met and serves as the library function in examples.
\<close>

fun select_min :: "('i \<Rightarrow> 'i \<Rightarrow> bool) \<Rightarrow> 'i \<Rightarrow> 'i list \<Rightarrow> 'i \<times> 'i list" where
  "select_min cmp m [] = (m, [])"
| "select_min cmp m (y # ys) =
     (if cmp y m then (case select_min cmp y ys of (m', r) \<Rightarrow> (m', m # r))
      else (case select_min cmp m ys of (m', r) \<Rightarrow> (m', y # r)))"

fun partial_sort_by_selection :: "'i partial_sort_fn" where
  "partial_sort_by_selection cmp 0 xs = xs"
| "partial_sort_by_selection cmp (Suc k) [] = []"
| "partial_sort_by_selection cmp (Suc k) (x # xs) =
     (case select_min cmp x xs of (m, r) \<Rightarrow> m # partial_sort_by_selection cmp k r)"

subsection \<open>Transposition\<close>

definition transpose_2d :: "'a list \<Rightarrow> nat list \<Rightarrow> 'a list \<Rightarrow> 'a list option" where
  "transpose_2d a dims b =
     do { d0 \<leftarrow> rd dims 0;
          for_loop 0 d0 (\<lambda>i0 b.
            do { d1 \<leftarrow> rd dims 1;
                 for_loop 0 d1 (\<lambda>i1 b.
                   do { v \<leftarrow> rd a (i0 * d1 + i1); wr b (i1 * d0 + i0) v }) b }) b }"

text \<open>
  The local array \<open>perm_ind\<close> starts uninitialised: its cells are \<open>None\<close> until the
  first loop writes them, and reading an unwritten cell is undefined behaviour.
\<close>

definition rd_init :: "'a option list \<Rightarrow> nat \<Rightarrow> 'a option" where
  "rd_init xs i = do { cell \<leftarrow> rd xs i; cell }"

definition transpose_3d :: "'a list \<Rightarrow> nat list \<Rightarrow> nat list \<Rightarrow> 'a list \<Rightarrow> 'a list option" where
  "transpose_3d a dims perm b =
     do { perm_ind \<leftarrow> for_loop 0 3 (\<lambda>i pind. do { p \<leftarrow> rd perm i; wr pind p (Some i) })
                        [None, None, None];
          d1 \<leftarrow> rd dims 1; d2 \<leftarrow> rd dims 2;
          let a_stride = [d1 * d2, d2, 1];
          p1 \<leftarrow> rd perm 1; p2 \<leftarrow> rd perm 2;
          e1 \<leftarrow> rd dims p1; e2 \<leftarrow> rd dims p2;
          let b_stride = [e1 * e2, e2, 1];
          q0 \<leftarrow> rd_init perm_ind 0; q1 \<leftarrow> rd_init perm_ind 1; q2 \<leftarrow> rd_init perm_ind 2;
          s0 \<leftarrow> rd b_stride q0; s1 \<leftarrow> rd b_stride q1; s2 \<leftarrow> rd b_stride q2;
          let perm_b_stride = [s0, s1, s2];
          d0 \<leftarrow> rd dims 0;
          for_loop 0 d0 (\<lambda>i0.
            for_loop 0 d1 (\<lambda>i1.
              for_loop 0 d2 (\<lambda>i2 b.
                do { let b_i = i0 * perm_b_stride ! 0 + i1 * perm_b_stride ! 1
                               + i2 * perm_b_stride ! 2;
                     let a_i = i0 * a_stride ! 0 + i1 * a_stride ! 1 + i2 * a_stride ! 2;
                     v \<leftarrow> rd a a_i;
                     wr b b_i v }))) b }"

definition transpose_4d :: "'a list \<Rightarrow> nat list \<Rightarrow> nat list \<Rightarrow> 'a list \<Rightarrow> 'a list option" where
  "transpose_4d a dims perm b =
     do { perm_ind \<leftarrow> for_loop 0 4 (\<lambda>i pind. do { p \<leftarrow> rd perm i; wr pind p (Some i) })
                        [None, None, None, None];
          d1 \<leftarrow> rd dims 1; d2 \<leftarrow> rd dims 2; d3 \<leftarrow> rd dims 3;
          let a_stride = [d1 * d2 * d3, d2 * d3, d3, 1];
          p1 \<leftarrow> rd perm 1; p2 \<leftarrow> rd perm 2; p3 \<leftarrow> rd perm 3;
          e1 \<leftarrow> rd dims p1; e2 \<leftarrow> rd dims p2; e3 \<leftarrow> rd dims p3;
          let b_stride = [e1 * e2 * e3, e2 * e3, e3, 1];
          q0 \<leftarrow> rd_init perm_ind 0; q1 \<leftarrow> rd_init perm_ind 1;
          q2 \<leftarrow> rd_init perm_ind 2; q3 \<leftarrow> rd_init perm_ind 3;
          s0 \<leftarrow> rd b_stride q0; s1 \<leftarrow> rd b_stride q1;
          s2 \<leftarrow> rd b_stride q2; s3 \<leftarrow> rd b_stride q3;
          let perm_b_stride = [s0, s1, s2, s3];
          d0 \<leftarrow> rd dims 0;
          for_loop 0 d0 (\<lambda>i0.
            for_loop 0 d1 (\<lambda>i1.
              for_loop 0 d2 (\<lambda>i2.
                for_loop 0 d3 (\<lambda>i3 b.
                  do { let b_i = i0 * perm_b_stride ! 0 + i1 * perm_b_stride ! 1
                                 + i2 * perm_b_stride ! 2 + i3 * perm_b_stride ! 3;
                       let a_i = i0 * a_stride ! 0 + i1 * a_stride ! 1
                                 + i2 * a_stride ! 2 + i3 * a_stride ! 3;
                       v \<leftarrow> rd a a_i;
                       wr b b_i v })))) b }"

text \<open>
  The specification's vocabulary: the row-major linear index of a multi-index \<open>js\<close> in
  a tensor of extents \<open>es\<close> (the stride of an axis is the product of the extents after
  it), and a sequence permuted by \<open>perm\<close>, \<open>xs[perm[0..n)]\<close>.
\<close>

fun row_major :: "nat list \<Rightarrow> nat list \<Rightarrow> nat" where
  "row_major (e # es) (j # js) = j * prod_list es + row_major es js"
| "row_major _ _ = 0"

definition permuted :: "nat list \<Rightarrow> 'a list \<Rightarrow> 'a list" where
  "permuted perm xs = map (\<lambda>p. xs ! p) perm"

subsection \<open>Batched matrix product\<close>

text \<open>
  \<open>gemm\<close> is declared in the header and defined by a backend, so it is a parameter
  here. Its pointer arguments are element addresses (natural numbers, \<open>a + n\<close> being
  pointer arithmetic) into a memory of an arbitrary type \<open>'mem\<close> that only the backend
  interprets; a call returns the memory it leaves, or \<open>None\<close> where it is undefined.
\<close>

type_synonym ('i, 'o, 'mem) gemm_fn =
  "nat \<Rightarrow> nat \<Rightarrow> bool \<Rightarrow> bool \<Rightarrow> nat \<Rightarrow> nat \<Rightarrow> nat \<Rightarrow> 'i \<Rightarrow> 'o \<Rightarrow> nat \<Rightarrow> 'mem \<Rightarrow> 'mem option"

definition gemm_batch ::
  "('i, 'o, 'mem) gemm_fn \<Rightarrow> nat \<Rightarrow> nat \<Rightarrow> bool \<Rightarrow> bool \<Rightarrow> nat \<Rightarrow> nat \<Rightarrow> nat \<Rightarrow> nat
     \<Rightarrow> 'i \<Rightarrow> 'o \<Rightarrow> nat \<Rightarrow> 'mem \<Rightarrow> 'mem option" where
  "gemm_batch gemm a b transpose_a transpose_b batch_size m n k alpha beta c mem =
     for_loop 0 batch_size (\<lambda>i mem.
       let a_i = a + (i * m * k); b_i = b + (i * k * n); c_i = c + (i * m * n)
       in gemm a_i b_i transpose_a transpose_b m n k alpha beta c_i mem) mem"

text \<open>
  A backend that only records its calls, in order: the memory is the list of the
  argument tuples received so far.
\<close>

type_synonym ('i, 'o) gemm_call = "nat \<times> nat \<times> bool \<times> bool \<times> nat \<times> nat \<times> nat \<times> 'i \<times> 'o \<times> nat"

definition gemm_recording :: "('i, 'o, ('i, 'o) gemm_call list) gemm_fn" where
  "gemm_recording a b transpose_a transpose_b m n k alpha beta c calls =
     Some (calls @ [(a, b, transpose_a, transpose_b, m, n, k, alpha, beta, c)])"

section \<open>Properties of the loops\<close>

lemma for_loop_stop: "\<not> i < n \<Longrightarrow> for_loop i n body s = Some s"
  by (simp add: for_loop.simps)

lemma for_loop_step:
  "i < n \<Longrightarrow> body i s = Some t \<Longrightarrow> for_loop i n body s = for_loop (Suc i) n body t"
  by (subst for_loop.simps) simp

text \<open>An invariant that every iteration keeps holds after the loop, and the loop returns.\<close>

lemma for_loop_invariant:
  assumes "I i s" and "i \<le> n"
    and "\<And>j t. i \<le> j \<Longrightarrow> j < n \<Longrightarrow> I j t \<Longrightarrow> \<exists>t'. body j t = Some t' \<and> I (Suc j) t'"
  shows "\<exists>t. for_loop i n body s = Some t \<and> I n t"
  using assms
proof (induction "n - i" arbitrary: i s)
  case 0
  then have "i = n" by simp
  with 0 show ?case by (simp add: for_loop_stop)
next
  case (Suc d)
  then have lt: "i < n" by simp
  from Suc.prems(3) [OF le_refl lt Suc.prems(1)]
  obtain t where t: "body i s = Some t" "I (Suc i) t" by blast
  have "\<exists>u. for_loop (Suc i) n body t = Some u \<and> I n u"
  proof (rule Suc.hyps(1))
    show "d = n - Suc i" using Suc.hyps(2) by simp
    show "I (Suc i) t" by (rule t(2))
    show "Suc i \<le> n" using lt by simp
    show "\<exists>t'. body j u = Some t' \<and> I (Suc j) t'" if "Suc i \<le> j" "j < n" "I j u" for j u
      using Suc.prems(3) [of j u] that by simp
  qed
  then show ?case using for_loop_step [of i n body s t] lt t(1) by simp
qed

text \<open>A loop whose body cannot fail on states satisfying \<open>P\<close> is a fold.\<close>

lemma for_loop_fold:
  assumes "P s"
    and "\<And>j t. i \<le> j \<Longrightarrow> j < n \<Longrightarrow> P t \<Longrightarrow> body j t = Some (f j t) \<and> P (f j t)"
  shows "for_loop i n body s = Some (fold f [i..<n] s) \<and> P (fold f [i..<n] s)"
  using assms
proof (induction "n - i" arbitrary: i s)
  case 0
  then show ?case by (simp add: for_loop_stop)
next
  case (Suc d)
  then have lt: "i < n" by simp
  have b: "body i s = Some (f i s)" and p: "P (f i s)"
    using Suc.prems(2) [OF le_refl lt Suc.prems(1)] by simp_all
  have "for_loop (Suc i) n body (f i s) = Some (fold f [Suc i..<n] (f i s))
        \<and> P (fold f [Suc i..<n] (f i s))"
  proof (rule Suc.hyps(1))
    show "d = n - Suc i" using Suc.hyps(2) by simp
    show "P (f i s)" by (rule p)
    show "body j t = Some (f j t) \<and> P (f j t)" if "Suc i \<le> j" "j < n" "P t" for j t
      using Suc.prems(2) [of j t] that by simp
  qed
  then show ?case
    using for_loop_step [of i n body s "f i s"] lt b by (simp add: upt_conv_Cons)
qed

section \<open>Elementwise addition and subtraction\<close>

lemma binary_transform_result:
  assumes "sz \<le> length a" "sz \<le> length b" "sz \<le> length c"
  shows "\<exists>c'. binary_transform a b c sz func = Some c' \<and> length c' = length c
           \<and> (\<forall>i < sz. c' ! i = func (a ! i) (b ! i))
           \<and> (\<forall>i \<ge> sz. c' ! i = c ! i)"
  unfolding binary_transform_def
proof (rule for_loop_invariant
    [where I = "\<lambda>j t. length t = length c \<and> (\<forall>i < j. t ! i = func (a ! i) (b ! i))
                  \<and> (\<forall>i \<ge> j. t ! i = c ! i)"])
  show "length c = length c \<and> (\<forall>i < 0. c ! i = func (a ! i) (b ! i)) \<and> (\<forall>i \<ge> 0. c ! i = c ! i)"
    by simp
  show "0 \<le> sz" by simp
  fix j t
  assume j: "0 \<le> j" "j < sz"
    and inv: "length t = length c \<and> (\<forall>i < j. t ! i = func (a ! i) (b ! i))
              \<and> (\<forall>i \<ge> j. t ! i = c ! i)"
  have body: "do { v1 \<leftarrow> rd a j; v2 \<leftarrow> rd b j; wr t j (func v1 v2) }
              = Some (t[j := func (a ! j) (b ! j)])"
    using j assms inv by (simp add: rd_def wr_def)
  have "length (t[j := func (a ! j) (b ! j)]) = length c" using inv by simp
  moreover have "\<forall>i < Suc j. t[j := func (a ! j) (b ! j)] ! i = func (a ! i) (b ! i)"
    using inv j assms by (auto simp: nth_list_update less_Suc_eq)
  moreover have "\<forall>i \<ge> Suc j. t[j := func (a ! j) (b ! j)] ! i = c ! i"
    using inv by (auto simp: nth_list_update)
  ultimately show "\<exists>t'. do { v1 \<leftarrow> rd a j; v2 \<leftarrow> rd b j; wr t j (func v1 v2) } = Some t'
      \<and> (length t' = length c \<and> (\<forall>i < Suc j. t' ! i = func (a ! i) (b ! i))
          \<and> (\<forall>i \<ge> Suc j. t' ! i = c ! i))"
    using body by simp
qed

text \<open>
  Claim C8. For buffers \<open>a\<close>, \<open>b\<close> of a fixed-width integer type (arithmetic modulo
  \<open>2^w\<close>) holding at least \<open>size\<close> elements, \<open>add(a, b, c, size)\<close> followed by
  \<open>sub(c, b, c2, size)\<close> returns, and leaves \<open>c2[i] = a[i]\<close> at every index below
  \<open>size\<close>; the rest of \<open>c2\<close> is untouched.
\<close>

theorem add_then_sub_restores:
  fixes a b c c2 :: "'w::len word list"
  assumes "sz \<le> length a" "sz \<le> length b" "sz \<le> length c" "sz \<le> length c2"
  shows "\<exists>c' c2'. add a b c sz = Some c' \<and> sub c' b c2 sz = Some c2'
           \<and> length c2' = length c2
           \<and> (\<forall>i < sz. c2' ! i = a ! i) \<and> (\<forall>i \<ge> sz. c2' ! i = c2 ! i)"
proof -
  obtain c' where c': "add a b c sz = Some c'" "length c' = length c"
      "\<forall>i < sz. c' ! i = a ! i + b ! i"
    using binary_transform_result [OF assms(1,2,3), of "\<lambda>v1 v2. v1 + v2"]
    unfolding add_def by blast
  have "sz \<le> length c'" using c'(2) assms(3) by simp
  from binary_transform_result [OF this assms(2,4), of "\<lambda>v1 v2. v1 - v2"]
  obtain c2' where c2': "sub c' b c2 sz = Some c2'" "length c2' = length c2"
      "\<forall>i < sz. c2' ! i = c' ! i - b ! i" "\<forall>i \<ge> sz. c2' ! i = c2 ! i"
    unfolding sub_def by blast
  have "\<forall>i < sz. c2' ! i = a ! i" using c'(3) c2'(3) by simp
  with c' c2' show ?thesis by blast
qed

theorem add_then_sub_restores_witness:
  "add [250, 7, 128 :: 8 word] [10, 255, 128] [0, 0, 0] 3 = Some [4, 6, 0]
   \<and> sub [4, 6, 0 :: 8 word] [10, 255, 128] [9, 9, 9, 9] 3 = Some [250, 7, 128, 9]
   \<and> (\<exists>c' c2'. add [250, 7, 128 :: 8 word] [10, 255, 128] [0, 0, 0] 3 = Some c'
         \<and> sub c' [10, 255, 128] [9, 9, 9, 9] 3 = Some c2'
         \<and> length c2' = length [9, 9, 9, 9 :: 8 word]
         \<and> (\<forall>i < 3. c2' ! i = [250, 7, 128] ! i)
         \<and> (\<forall>i \<ge> 3. c2' ! i = [9, 9, 9, 9] ! i))"
proof -
  have "add [250, 7, 128 :: 8 word] [10, 255, 128] [0, 0, 0] 3 = Some [4, 6, 0]"
    by code_simp
  moreover have "sub [4, 6, 0 :: 8 word] [10, 255, 128] [9, 9, 9, 9] 3 = Some [250, 7, 128, 9]"
    by code_simp
  moreover have "\<exists>c' c2'. add [250, 7, 128 :: 8 word] [10, 255, 128] [0, 0, 0] 3 = Some c'
         \<and> sub c' [10, 255, 128] [9, 9, 9, 9] 3 = Some c2'
         \<and> length c2' = length [9, 9, 9, 9 :: 8 word]
         \<and> (\<forall>i < 3. c2' ! i = [250, 7, 128] ! i)
         \<and> (\<forall>i \<ge> 3. c2' ! i = [9, 9, 9, 9] ! i)"
    by (rule add_then_sub_restores) simp_all
  ultimately show ?thesis by blast
qed

section \<open>Reductions\<close>

lemma max_element_loop:
  fixes array :: "'a::linorder list"
  assumes "0 < sz" "sz \<le> length array"
  shows "\<exists>i. for_loop 1 sz
             (\<lambda>first result. do { r \<leftarrow> rd array result; f \<leftarrow> rd array first;
                                   Some (if r < f then first else result) }) 0 = Some i
           \<and> (i < sz \<and> (\<forall>j < sz. array ! j \<le> array ! i) \<and> (\<forall>j < i. array ! j < array ! i))"
proof (rule for_loop_invariant
    [where I = "\<lambda>first r. r < first \<and> (\<forall>j < first. array ! j \<le> array ! r)
                  \<and> (\<forall>j < r. array ! j < array ! r)", THEN exE])
  show "0 < (1::nat) \<and> (\<forall>j < 1. array ! j \<le> array ! 0) \<and> (\<forall>j < 0. array ! j < array ! 0)"
    by simp
  show "1 \<le> sz" using assms(1) by simp
next
  fix first r
  assume f: "1 \<le> first" "first < sz"
    and inv: "r < first \<and> (\<forall>j < first. array ! j \<le> array ! r)
              \<and> (\<forall>j < r. array ! j < array ! r)"
  let ?r' = "if array ! r < array ! first then first else r"
  have body: "do { x \<leftarrow> rd array r; y \<leftarrow> rd array first;
                   Some (if x < y then first else r) } = Some ?r'"
    using f inv assms by (simp add: rd_def)
  have "?r' < Suc first" using inv by simp
  moreover have "\<forall>j < Suc first. array ! j \<le> array ! ?r'"
    using inv by (auto simp: less_Suc_eq intro: order.trans less_imp_le)
  moreover have "\<forall>j < ?r'. array ! j < array ! ?r'"
    using inv by (auto intro: le_less_trans)
  ultimately show "\<exists>t'. do { x \<leftarrow> rd array r; y \<leftarrow> rd array first;
                   Some (if x < y then first else r) } = Some t'
       \<and> (t' < Suc first \<and> (\<forall>j < Suc first. array ! j \<le> array ! t')
            \<and> (\<forall>j < t'. array ! j < array ! t'))"
    using body by simp
next
  fix i
  assume "for_loop 1 sz
             (\<lambda>first result. do { r \<leftarrow> rd array result; f \<leftarrow> rd array first;
                                   Some (if r < f then first else result) }) 0 = Some i
           \<and> (i < sz \<and> (\<forall>j < sz. array ! j \<le> array ! i) \<and> (\<forall>j < i. array ! j < array ! i))"
  then show ?thesis by blast
qed

lemma max_element_first_maximum:
  assumes "0 < sz" "sz \<le> length array"
  shows "\<exists>i. max_element array sz = Some i \<and> i < sz
           \<and> (\<forall>j < sz. array ! j \<le> array ! i) \<and> (\<forall>j < i. array ! j < array ! i)
           \<and> max_array array sz = Some (array ! i)"
proof -
  from max_element_loop [OF assms] obtain i where
    i: "max_element array sz = Some i" "i < sz" "\<forall>j < sz. array ! j \<le> array ! i"
      "\<forall>j < i. array ! j < array ! i"
    using assms(1) unfolding max_element_def by auto
  have "max_array array sz = Some (array ! i)"
    using i(1,2) assms(2) by (simp add: max_array_def rd_def)
  with i show ?thesis by blast
qed

text \<open>
  Claim C4. On a non-empty buffer (\<open>0 < size\<close>, all \<open>size\<close> elements addressable)
  \<open>max_element\<close> returns an index \<open>i\<close> below \<open>size\<close> whose value is the maximum
  (no element is greater) and before which every element is strictly smaller, so \<open>i\<close>
  is the lowest index of the maximum; \<open>max\<close> returns the value stored at \<open>i\<close>; and
  \<open>max_element([3,5,5,2]) = 1\<close>.
\<close>

theorem max_element_lowest_index_of_maximum:
  "(0 < sz \<and> sz \<le> length array \<longrightarrow>
      (\<exists>i. max_element array sz = Some i \<and> i < sz
           \<and> (\<forall>j < sz. array ! j \<le> array ! i) \<and> (\<forall>j < i. array ! j < array ! i)
           \<and> max_array array sz = Some (array ! i)))
   \<and> max_element [3, 5, 5, 2 :: int] 4 = Some 1"
proof
  show "0 < sz \<and> sz \<le> length array \<longrightarrow>
      (\<exists>i. max_element array sz = Some i \<and> i < sz
           \<and> (\<forall>j < sz. array ! j \<le> array ! i) \<and> (\<forall>j < i. array ! j < array ! i)
           \<and> max_array array sz = Some (array ! i))"
    using max_element_first_maximum by blast
  show "max_element [3, 5, 5, 2 :: int] 4 = Some 1"
    by code_simp
qed

theorem max_element_lowest_index_of_maximum_witness:
  "max_element [2, 9, 4, 9, 1 :: int] 5 = Some 1
   \<and> max_array [2, 9, 4, 9, 1 :: int] 5 = Some 9
   \<and> (\<exists>i. max_element [2, 9, 4, 9, 1 :: int] 5 = Some i \<and> i < 5
           \<and> (\<forall>j < 5. [2, 9, 4, 9, 1 :: int] ! j \<le> [2, 9, 4, 9, 1] ! i)
           \<and> (\<forall>j < i. [2, 9, 4, 9, 1 :: int] ! j < [2, 9, 4, 9, 1] ! i)
           \<and> max_array [2, 9, 4, 9, 1 :: int] 5 = Some ([2, 9, 4, 9, 1] ! i))"
proof -
  have "max_element [2, 9, 4, 9, 1 :: int] 5 = Some 1" by code_simp
  moreover have "max_array [2, 9, 4, 9, 1 :: int] 5 = Some 9" by code_simp
  moreover have "\<exists>i. max_element [2, 9, 4, 9, 1 :: int] 5 = Some i \<and> i < 5
           \<and> (\<forall>j < 5. [2, 9, 4, 9, 1 :: int] ! j \<le> [2, 9, 4, 9, 1] ! i)
           \<and> (\<forall>j < i. [2, 9, 4, 9, 1 :: int] ! j < [2, 9, 4, 9, 1] ! i)
           \<and> max_array [2, 9, 4, 9, 1 :: int] 5 = Some ([2, 9, 4, 9, 1] ! i)"
    using max_element_lowest_index_of_maximum [of 5 "[2, 9, 4, 9, 1 :: int]"] by simp
  ultimately show ?thesis by blast
qed

text \<open>The sum of \<open>n\<close> copies of \<open>v\<close> is \<open>n * v\<close>, in the arithmetic of the element type.\<close>

lemma sum_array_copies:
  fixes v :: "'w::len word"
  shows "sum_array (replicate n v) n = Some (of_nat n * v)"
proof -
  have "\<exists>t. for_loop 0 n (\<lambda>i acc. do { x \<leftarrow> rd (replicate n v) i; Some (acc + x) }) 0 = Some t
           \<and> t = of_nat n * v"
  proof (rule for_loop_invariant [where I = "\<lambda>j acc. acc = of_nat j * v"])
    show "(0 :: 'w word) = of_nat 0 * v" by simp
    show "0 \<le> n" by simp
    show "\<exists>t'. do { x \<leftarrow> rd (replicate n v) j; Some (t + x) } = Some t' \<and> t' = of_nat (Suc j) * v"
      if "j < n" "t = of_nat j * v" for j t
      using that by (simp add: rd_def algebra_simps)
  qed
  then show ?thesis by (simp add: sum_array_def accumulate_def)
qed

text \<open>
  Where the sum is not negative, the unsigned 64-bit division of \<open>mean\<close> is the
  truncating division of the sum by the size.
\<close>

lemma unsigned_division_of_nonneg:
  fixes s :: int32_t and sz :: size_t
  assumes "0 \<le> sint s"
  shows "(ucast ((scast s :: size_t) div sz) :: int32_t) = word_of_int (sint s sdiv uint sz)"
proof -
  have b: "sint s < 2 ^ 31" using sint_lt [of s] by simp
  have "(2::int) ^ 31 \<le> 2 ^ LENGTH(64)" by simp
  with b have b': "sint s < 2 ^ LENGTH(64)" by (rule less_le_trans)
  have "uint (scast s :: size_t) = take_bit LENGTH(64) (sint s)"
    by (simp only: scast_eq uint_word_of_int_eq)
  also have "\<dots> = sint s"
    using assms b' by (rule take_bit_int_eq_self)
  finally have 1: "uint (scast s :: size_t) = sint s" .
  have 2: "uint ((scast s :: size_t) div sz) = sint s div uint sz"
    by (simp add: uint_div 1)
  have 3: "sint s sdiv uint sz = sint s div uint sz"
  proof -
    have "0 \<le> uint sz" by simp
    then have "uint sz = 0 \<or> 0 < uint sz" by linarith
    then show ?thesis using assms by (auto simp: signed_divide_int_def sgn_if)
  qed
  show ?thesis
    using 2 3 by (metis ucast_eq)
qed

lemma mean_of_nonneg_sum:
  assumes "sum_array array (unat sz) = Some s" "0 \<le> sint s"
  shows "mean array sz = mean_truncating array sz"
  using assms by (simp add: mean_def mean_truncating_def unsigned_division_of_nonneg)

text \<open>
  Claim C2, at the buffer of three copies of \<open>-1\<close> with \<open>T = int32_t\<close>: \<open>sum\<close>
  returns \<open>-3\<close>, as claimed, but \<open>mean\<close> returns \<open>1431655764\<close>, where the sum
  divided by the size with truncating division is \<open>-1\<close>.
\<close>

theorem mean_of_negative_copies:
  "sum_array [-1, -1, -1 :: int32_t] 3 = Some (- 3)
   \<and> mean [-1, -1, -1] 3 = Some 1431655764
   \<and> mean_truncating [-1, -1, -1] 3 = Some (- 1)
   \<and> sint (1431655764 :: int32_t) = 1431655764"
proof -
  have "sum_array [-1, -1, -1 :: int32_t] 3 = Some (- 3)" by code_simp
  moreover have "mean [-1, -1, -1] 3 = Some 1431655764" by code_simp
  moreover have "mean_truncating [-1, -1, -1] 3 = Some (- 1)" by code_simp
  moreover have "sint (1431655764 :: int32_t) = 1431655764" by simp
  ultimately show ?thesis by blast
qed

section \<open>Top-k selection\<close>

text \<open>A loop with an iteration that fails on every reachable state is undefined.\<close>

lemma for_loop_undefined:
  assumes "i \<le> j" "j < n" "P s"
    and "\<And>l t t'. P t \<Longrightarrow> body l t = Some t' \<Longrightarrow> P t'"
    and "\<And>t. P t \<Longrightarrow> body j t = None"
  shows "for_loop i n body s = None"
  using assms(1,3)
proof (induction "j - i" arbitrary: i s)
  case 0
  then have "i = j" by simp
  then show ?case using assms(2) assms(5) [OF "0.prems"(2)]
    by (subst for_loop.simps) simp
next
  case (Suc d)
  then have lt: "i < j" by simp
  show ?case
  proof (cases "body i s")
    case None
    then show ?thesis using lt assms(2) by (subst for_loop.simps) simp
  next
    case (Some t)
    have "for_loop (Suc i) n body t = None"
    proof (rule Suc.hyps(1))
      show "d = j - Suc i" using Suc.hyps(2) by simp
      show "Suc i \<le> j" using lt by simp
      show "P t" using assms(4) [OF Suc.prems(2) Some] .
    qed
    then show ?thesis using Some lt assms(2) by (subst for_loop.simps) simp
  qed
qed

lemma iota_result:
  assumes "sz \<le> length indices"
  shows "iota indices sz = Some ([0..<sz] @ drop sz indices)"
proof -
  have "\<exists>t. for_loop 0 sz (\<lambda>i ind. wr ind i i) indices = Some t
           \<and> t = [0..<sz] @ drop sz indices"
  proof (rule for_loop_invariant [where I = "\<lambda>j t. t = [0..<j] @ drop j indices"])
    show "indices = [0..<0] @ drop 0 indices" by simp
    show "0 \<le> sz" by simp
    show "\<exists>t'. wr t j j = Some t' \<and> t' = [0..<Suc j] @ drop (Suc j) indices"
      if "j < sz" "t = [0..<j] @ drop j indices" for j t
    proof -
      have "j < length indices" using that(1) assms by simp
      then have "drop j indices = indices ! j # drop (Suc j) indices"
        by (simp add: Cons_nth_drop_Suc)
      then show ?thesis using that(2) \<open>j < length indices\<close>
        by (simp add: wr_def list_update_append)
    qed
  qed
  then show ?thesis by (simp add: iota_def)
qed

lemma iota_undefined:
  assumes "length indices < sz"
  shows "iota indices sz = None"
  unfolding iota_def
proof (rule for_loop_undefined [where j = "length indices" and P = "\<lambda>t. length t = length indices"])
  show "0 \<le> length indices" by simp
  show "length indices < sz" by (rule assms)
  show "length indices = length indices" by simp
  show "length t' = length indices" if "length t = length indices" "wr t l l = Some t'" for l t t'
    using that by (auto simp: wr_def split: if_splits)
  show "wr t (length indices) (length indices) = None" if "length t = length indices" for t
    using that by (simp add: wr_def)
qed

lemma strict_weak_order_by_value:
  fixes x :: "'a::linorder list"
  shows "strict_weak_order (\<lambda>i1 i2. x ! i1 > x ! i2)"
  by (auto simp: strict_weak_order_def)

lemma topk_Some:
  assumes "topk ps x indices k sz = Some ind'"
  shows "k \<le> sz \<and> sz \<le> length x \<and> sz \<le> length indices
         \<and> ind' = ps (\<lambda>i1 i2. x ! i1 > x ! i2) k [0..<sz] @ drop sz indices"
proof -
  have cap: "sz \<le> length indices"
  proof (rule ccontr)
    assume "\<not> sz \<le> length indices"
    then have "iota indices sz = None" by (simp add: iota_undefined)
    then show False using assms by (simp add: topk_def)
  qed
  then show ?thesis
    using assms by (auto simp: topk_def iota_result split: if_splits)
qed

lemma topk_defined:
  assumes "k \<le> sz" "sz \<le> length x" "sz \<le> length indices"
  shows "topk ps x indices k sz
         = Some (ps (\<lambda>i1 i2. x ! i1 > x ! i2) k [0..<sz] @ drop sz indices)"
  using assms by (simp add: topk_def iota_result)

lemma topk_post:
  fixes x :: "'a::linorder list"
  assumes "partial_sort_contract ps" "topk ps x indices k sz = Some ind'"
  shows "partial_sort_post (\<lambda>i1 i2. x ! i1 > x ! i2) k [0..<sz] (take sz ind')"
    and "drop sz ind' = drop sz indices" and "length (take sz ind') = sz"
    and "take sz ind' = ps (\<lambda>i1 i2. x ! i1 > x ! i2) k [0..<sz]"
proof -
  define ys where "ys = ps (\<lambda>i1 i2. x ! i1 > x ! i2) k [0..<sz]"
  have k: "k \<le> sz" and ind': "ind' = ys @ drop sz indices"
    using topk_Some [OF assms(2)] unfolding ys_def by blast+
  have "strict_weak_order (\<lambda>i1 i2. x ! i1 > x ! i2) \<and> k \<le> length [0..<sz]"
    using k strict_weak_order_by_value [of x] by simp
  with assms(1) have post: "partial_sort_post (\<lambda>i1 i2. x ! i1 > x ! i2) k [0..<sz] ys"
    unfolding partial_sort_contract_def ys_def by blast
  then have "mset ys = mset [0..<sz]" unfolding partial_sort_post_def by blast
  then have "length ys = length [0..<sz]" by (rule mset_eq_length)
  then have len: "length ys = sz" by simp
  have t: "take sz ind' = ys" unfolding ind' using len by simp
  show "partial_sort_post (\<lambda>i1 i2. x ! i1 > x ! i2) k [0..<sz] (take sz ind')"
    unfolding t by (rule post)
  show "drop sz ind' = drop sz indices" unfolding ind' using len by simp
  show "length (take sz ind') = sz" unfolding t by (rule len)
  show "take sz ind' = ps (\<lambda>i1 i2. x ! i1 > x ! i2) k [0..<sz]" unfolding t ys_def ..
qed


text \<open>
  Selection of a least element needs only that the comparator is irreflexive and
  transitive, so the selection sort meets the library contract.
\<close>

lemma select_min_least:
  assumes "\<forall>a. \<not> cmp a a" "\<forall>a b c. cmp a b \<and> cmp b c \<longrightarrow> cmp a c"
    and "select_min cmp m ys = (m', r)"
  shows "mset (m' # r) = mset (m # ys) \<and> (m' = m \<or> cmp m' m)
         \<and> (\<forall>b \<in> set (m # ys). \<not> cmp b m')"
  using assms(3)
proof (induction ys arbitrary: m m' r)
  case Nil
  then show ?case using assms(1) by simp
next
  case (Cons y ys)
  show ?case
  proof (cases "cmp y m")
    case True
    then obtain r0 where r0: "select_min cmp y ys = (m', r0)" and r: "r = m # r0"
      using Cons.prems by (auto split: prod.splits)
    from Cons.IH [OF r0] have ih: "mset (m' # r0) = mset (y # ys)" "m' = y \<or> cmp m' y"
      "\<forall>b \<in> set (y # ys). \<not> cmp b m'" by simp_all
    have lt: "cmp m' m" using ih(2) True assms(2) by blast
    have "\<not> cmp m m'" using lt assms(1,2) by blast
    then show ?thesis using ih r lt by auto
  next
    case False
    then obtain r0 where r0: "select_min cmp m ys = (m', r0)" and r: "r = y # r0"
      using Cons.prems by (auto split: prod.splits)
    from Cons.IH [OF r0] have ih: "mset (m' # r0) = mset (m # ys)" "m' = m \<or> cmp m' m"
      "\<forall>b \<in> set (m # ys). \<not> cmp b m'" by simp_all
    have "\<not> cmp y m'" using ih(2) False assms(2) by blast
    then show ?thesis using ih r by auto
  qed
qed

lemma partial_sort_by_selection_post:
  "\<forall>a. \<not> cmp a a \<Longrightarrow> \<forall>a b c. cmp a b \<and> cmp b c \<longrightarrow> cmp a c
   \<Longrightarrow> partial_sort_post cmp k xs (partial_sort_by_selection cmp k xs)"
proof (induction cmp k xs rule: partial_sort_by_selection.induct)
  case (1 cmp xs)
  show ?case by (simp add: partial_sort_post_def)
next
  case (2 cmp k)
  show ?case by (simp add: partial_sort_post_def)
next
  case (3 cmp k x xs)
  obtain m r where mr: "select_min cmp x xs = (m, r)" by (cases "select_min cmp x xs")
  let ?rec = "partial_sort_by_selection cmp k r"
  from select_min_least [OF "3.prems" mr]
  have ms: "mset (m # r) = mset (x # xs)" and least: "\<forall>b \<in> set (x # xs). \<not> cmp b m"
    by simp_all
  from "3.IH" [OF mr [symmetric] "3.prems"]
  have ih: "mset ?rec = mset r" "sorted_wrt (\<lambda>a b. \<not> cmp b a) (take k ?rec)"
    "\<forall>a \<in> set (take k ?rec). \<forall>b \<in> set (drop k ?rec). \<not> cmp b a"
    by (simp_all add: partial_sort_post_def)
  have "set ?rec = set r" using ih(1) by (rule mset_eq_setD)
  moreover have "set r \<subseteq> set (x # xs)" using mset_eq_setD [OF ms] by auto
  ultimately have sub: "set ?rec \<subseteq> set (x # xs)" by simp
  have least': "\<forall>b \<in> set ?rec. \<not> cmp b m" using sub least by blast
  have a: "\<forall>b \<in> set (take k ?rec). \<not> cmp b m"
    using least' by (meson in_set_takeD)
  have b: "\<forall>b \<in> set (drop k ?rec). \<not> cmp b m"
    using least' by (meson in_set_dropD)
  have "mset (m # ?rec) = mset (x # xs)" using ih(1) ms by simp
  then show ?case using mr ih(2,3) a b by (simp add: partial_sort_post_def)
qed

lemma partial_sort_by_selection_conforms:
  "partial_sort_contract partial_sort_by_selection"
  unfolding partial_sort_contract_def strict_weak_order_def
  using partial_sort_by_selection_post by blast


lemma topk_selection:
  fixes x :: "'a::linorder list"
  assumes "partial_sort_contract ps" "topk ps x indices k sz = Some ind'"
  shows "length (take k ind') = k" and "distinct (take k ind')"
    and "\<forall>i \<in> set (take k ind'). i < sz"
    and "\<forall>i \<in> set (take k ind'). \<forall>j < sz. j \<notin> set (take k ind') \<longrightarrow> x ! j \<le> x ! i"
    and "sorted_wrt (\<lambda>i j. x ! j \<le> x ! i) (take k ind')"
proof -
  define ys where "ys = take sz ind'"
  have k: "k \<le> sz" using topk_Some [OF assms(2)] by blast
  have post: "partial_sort_post (\<lambda>i1 i2. x ! i1 > x ! i2) k [0..<sz] ys"
    and len: "length ys = sz"
    using topk_post(1,3) [OF assms] unfolding ys_def by blast+
  have tk: "take k ind' = take k ys" unfolding ys_def using k by (simp add: min_def)
  have ms: "mset ys = mset [0..<sz]" using post unfolding partial_sort_post_def by blast
  have set_ys: "set ys = {0..<sz}" using mset_eq_setD [OF ms] by simp
  have dist: "distinct ys" using mset_eq_imp_distinct_iff [OF ms] by simp
  show "length (take k ind') = k" unfolding tk using len k by simp
  show "distinct (take k ind')" unfolding tk using dist by (rule distinct_take)
  show "\<forall>i \<in> set (take k ind'). i < sz"
    unfolding tk using set_ys by (auto dest: in_set_takeD)
  show "\<forall>i \<in> set (take k ind'). \<forall>j < sz. j \<notin> set (take k ind') \<longrightarrow> x ! j \<le> x ! i"
    unfolding tk
  proof (intro ballI allI impI)
    fix i j
    assume i: "i \<in> set (take k ys)" and j: "j < sz" "j \<notin> set (take k ys)"
    have "set ys = set (take k ys) \<union> set (drop k ys)"
      by (metis append_take_drop_id set_append)
    then have "j \<in> set (drop k ys)" using j set_ys by auto
    then have "\<not> x ! j > x ! i"
      using post i unfolding partial_sort_post_def by blast
    then show "x ! j \<le> x ! i" by simp
  qed
  have "sorted_wrt (\<lambda>a b. \<not> x ! b > x ! a) (take k ys)"
    using post unfolding partial_sort_post_def by blast
  then show "sorted_wrt (\<lambda>i j. x ! j \<le> x ! i) (take k ind')"
    unfolding tk by (simp add: not_less)
qed

lemma topk_example_values:
  assumes "partial_sort_contract ps" "topk ps [1, 5, 3, 5, 2 :: int] indices 2 5 = Some ind'"
  shows "map (\<lambda>i. [1, 5, 3, 5, 2 :: int] ! i) (take 2 ind') = [5, 5]"
proof -
  let ?x = "[1, 5, 3, 5, 2 :: int]"
  note sel = topk_selection [OF assms]
  have "\<exists>a b. xs = [a, b]" if "length xs = 2" for xs :: "nat list"
    using that by (auto simp: length_Suc_conv eval_nat_numeral)
  from this [OF sel(1)] obtain s0 s1 where S: "take 2 ind' = [s0, s1]" by blast
  have ne: "s0 \<noteq> s1" using sel(2) S by simp
  have lt: "s0 < 5" "s1 < 5" using sel(3) S by simp_all
  have dom: "\<forall>j < 5. j \<noteq> s0 \<and> j \<noteq> s1 \<longrightarrow> ?x ! j \<le> ?x ! s0 \<and> ?x ! j \<le> ?x ! s1"
    using sel(4) S by simp
  have d1: "1 \<noteq> s0 \<and> 1 \<noteq> s1 \<longrightarrow> 5 \<le> ?x ! s0 \<and> 5 \<le> ?x ! s1"
    using dom [rule_format, of 1] by simp
  have d3: "3 \<noteq> s0 \<and> 3 \<noteq> s1 \<longrightarrow> 5 \<le> ?x ! s0 \<and> 5 \<le> ?x ! s1"
    using dom [rule_format, of 3] by simp
  have c0: "s0 = 0 \<or> s0 = 1 \<or> s0 = 2 \<or> s0 = 3 \<or> s0 = 4" using lt(1) by arith
  have c1: "s1 = 0 \<or> s1 = 1 \<or> s1 = 2 \<or> s1 = 3 \<or> s1 = 4" using lt(2) by arith
  have "?x ! s0 = 5 \<and> ?x ! s1 = 5"
    using c0 c1 ne d1 d3 by auto
  then show ?thesis using S by simp
qed


text \<open>
  Claim C3. With any \<open>std::partial_sort\<close> that meets the standard's contract, for
  \<open>k \<le> size\<close> (and buffers \<open>x\<close> and \<open>indices\<close> of at least \<open>size\<close> elements)
  \<open>topk\<close> returns, and the first \<open>k\<close> entries of \<open>indices\<close> are \<open>k\<close> distinct
  indices below \<open>size\<close> such that the value at each of them is at least the value at
  every index below \<open>size\<close> that is not among them. On \<open>x = [1,5,3,5,2]\<close> with
  \<open>k = 2\<close> the values at the two returned indices are \<open>5\<close> and \<open>5\<close>.
\<close>

theorem topk_selects_k_largest:
  fixes x :: "'a::linorder list"
  assumes "partial_sort_contract ps"
  shows "(k \<le> sz \<and> sz \<le> length x \<and> sz \<le> length indices \<longrightarrow>
            (\<exists>ind'. topk ps x indices k sz = Some ind'
               \<and> length (take k ind') = k \<and> distinct (take k ind')
               \<and> (\<forall>i \<in> set (take k ind'). i < sz)
               \<and> (\<forall>i \<in> set (take k ind'). \<forall>j < sz.
                      j \<notin> set (take k ind') \<longrightarrow> x ! j \<le> x ! i)))
         \<and> (5 \<le> length buf \<longrightarrow>
            (\<exists>ind'. topk ps [1, 5, 3, 5, 2 :: int] buf 2 5 = Some ind'
               \<and> map (\<lambda>i. [1, 5, 3, 5, 2 :: int] ! i) (take 2 ind') = [5, 5]))"
proof (intro conjI impI)
  assume "k \<le> sz \<and> sz \<le> length x \<and> sz \<le> length indices"
  then obtain ind' where r: "topk ps x indices k sz = Some ind'"
    by (simp add: topk_defined)
  from topk_selection(1-4) [OF assms r] r
  show "\<exists>ind'. topk ps x indices k sz = Some ind'
               \<and> length (take k ind') = k \<and> distinct (take k ind')
               \<and> (\<forall>i \<in> set (take k ind'). i < sz)
               \<and> (\<forall>i \<in> set (take k ind'). \<forall>j < sz.
                      j \<notin> set (take k ind') \<longrightarrow> x ! j \<le> x ! i)"
    by blast
next
  assume "5 \<le> length buf"
  then obtain ind' where r: "topk ps [1, 5, 3, 5, 2 :: int] buf 2 5 = Some ind'"
    by (simp add: topk_defined)
  from r topk_example_values [OF assms r]
  show "\<exists>ind'. topk ps [1, 5, 3, 5, 2 :: int] buf 2 5 = Some ind'
               \<and> map (\<lambda>i. [1, 5, 3, 5, 2 :: int] ! i) (take 2 ind') = [5, 5]"
    by (intro exI [of _ ind'] conjI)
qed

theorem topk_selects_k_largest_witness:
  "partial_sort_contract partial_sort_by_selection
   \<and> topk partial_sort_by_selection [4, 8, 6, 8, 5 :: int] [0, 0, 0, 0, 0] 3 5
       = Some [1, 3, 2, 0, 4]
   \<and> (\<exists>ind'. topk partial_sort_by_selection [4, 8, 6, 8, 5 :: int] [0, 0, 0, 0, 0] 3 5 = Some ind'
         \<and> length (take 3 ind') = 3 \<and> distinct (take 3 ind')
         \<and> (\<forall>i \<in> set (take 3 ind'). i < 5)
         \<and> (\<forall>i \<in> set (take 3 ind'). \<forall>j < 5.
                j \<notin> set (take 3 ind') \<longrightarrow> [4, 8, 6, 8, 5 :: int] ! j \<le> [4, 8, 6, 8, 5] ! i))
   \<and> (\<exists>ind'. topk partial_sort_by_selection [1, 5, 3, 5, 2 :: int] [0, 0, 0, 0, 0] 2 5 = Some ind'
         \<and> map (\<lambda>i. [1, 5, 3, 5, 2 :: int] ! i) (take 2 ind') = [5, 5])"
proof -
  have "topk partial_sort_by_selection [4, 8, 6, 8, 5 :: int] [0, 0, 0, 0, 0] 3 5
          = Some [1, 3, 2, 0, 4]"
    by code_simp
  then show ?thesis
    using partial_sort_by_selection_conforms
      topk_selects_k_largest [OF partial_sort_by_selection_conforms,
        of 3 5 "[4, 8, 6, 8, 5 :: int]" "[0, 0, 0, 0, 0]" "[0, 0, 0, 0, 0]"]
    by simp
qed

text \<open>
  Claim C9. \<open>topk\<close> writes all of \<open>indices[0..size)\<close>: whenever it returns, the buffer
  has at least \<open>size\<close> entries, its first \<open>size\<close> entries are a permutation of
  \<open>0..size-1\<close> and the entries from \<open>size\<close> on are unchanged; the first \<open>size\<close>
  entries do not depend on what the buffer held before the call; and a buffer of fewer
  than \<open>size\<close> entries is an out-of-bounds write (undefined), also when \<open>k < size\<close>.
\<close>

theorem topk_writes_size_indices:
  fixes x :: "'a::linorder list"
  assumes "partial_sort_contract ps"
  shows "(topk ps x indices k sz = Some ind' \<longrightarrow>
            sz \<le> length indices \<and> length ind' = length indices
            \<and> mset (take sz ind') = mset [0..<sz] \<and> drop sz ind' = drop sz indices)
         \<and> (topk ps x indices k sz = Some ind' \<and> sz \<le> length other \<longrightarrow>
            topk ps x other k sz = Some (take sz ind' @ drop sz other))
         \<and> (length indices < sz \<longrightarrow> topk ps x indices k sz = None)
         \<and> (k \<le> sz \<and> sz \<le> length x \<and> sz \<le> length indices \<longrightarrow>
            (\<exists>r. topk ps x indices k sz = Some r))"
proof -
  have p1: "sz \<le> length indices \<and> length ind' = length indices
            \<and> mset (take sz ind') = mset [0..<sz] \<and> drop sz ind' = drop sz indices"
    if r: "topk ps x indices k sz = Some ind'"
  proof -
    have cap: "sz \<le> length indices" using topk_Some [OF r] by blast
    have ms: "mset (take sz ind') = mset [0..<sz]"
      using topk_post(1) [OF assms r] unfolding partial_sort_post_def by blast
    have "length ind' = length (take sz ind') + length (drop sz ind')"
      by (simp only: length_append [symmetric] append_take_drop_id)
    then have "length ind' = length indices"
      unfolding topk_post(2,3) [OF assms r] using cap by simp
    then show ?thesis
      using cap ms topk_post(2) [OF assms r] by blast
  qed
  have p2: "topk ps x other k sz = Some (take sz ind' @ drop sz other)"
    if r: "topk ps x indices k sz = Some ind'" and o: "sz \<le> length other"
  proof -
    have f: "k \<le> sz" "sz \<le> length x"
      using topk_Some [OF r] by blast+
    show ?thesis
      using topk_defined [OF f o, of ps] unfolding topk_post(4) [OF assms r] by simp
  qed
  have p3: "topk ps x indices k sz = None" if "length indices < sz"
    using that by (simp add: topk_def iota_undefined)
  have p4: "\<exists>r. topk ps x indices k sz = Some r"
    if "k \<le> sz \<and> sz \<le> length x \<and> sz \<le> length indices"
    using that by (simp add: topk_defined)
  show ?thesis using p1 p2 p3 p4 by blast
qed

theorem topk_writes_size_indices_witness:
  "partial_sort_contract partial_sort_by_selection
   \<and> topk partial_sort_by_selection [1, 5, 3, 5, 2 :: int] [9, 9, 9, 9, 9, 7] 2 5
       = Some [1, 3, 0, 2, 4, 7]
   \<and> mset (take 5 [1, 3, 0, 2, 4, 7 :: nat]) = mset [0..<5]
   \<and> drop 5 [1, 3, 0, 2, 4, 7 :: nat] = drop 5 [9, 9, 9, 9, 9, 7]
   \<and> topk partial_sort_by_selection [1, 5, 3, 5, 2 :: int] [8, 8, 8, 8, 8] 2 5
       = Some (take 5 [1, 3, 0, 2, 4, 7] @ drop 5 [8, 8, 8, 8, 8])
   \<and> topk partial_sort_by_selection [1, 5, 3, 5, 2 :: int] [9, 9, 9, 9] 2 5 = None"
proof -
  have r: "topk partial_sort_by_selection [1, 5, 3, 5, 2 :: int] [9, 9, 9, 9, 9, 7] 2 5
       = Some [1, 3, 0, 2, 4, 7]"
    by code_simp
  note t = topk_writes_size_indices [OF partial_sort_by_selection_conforms]
  have "mset (take 5 [1, 3, 0, 2, 4, 7 :: nat]) = mset [0..<5]
        \<and> drop 5 [1, 3, 0, 2, 4, 7 :: nat] = drop 5 [9, 9, 9, 9, 9, 7]"
    using t [of "[1, 5, 3, 5, 2 :: int]" "[9, 9, 9, 9, 9, 7]" 2 5 "[1, 3, 0, 2, 4, 7]"] r
    by blast
  moreover have "topk partial_sort_by_selection [1, 5, 3, 5, 2 :: int] [8, 8, 8, 8, 8] 2 5
       = Some (take 5 [1, 3, 0, 2, 4, 7] @ drop 5 [8, 8, 8, 8, 8])"
    using t [of "[1, 5, 3, 5, 2 :: int]" "[9, 9, 9, 9, 9, 7]" 2 5 "[1, 3, 0, 2, 4, 7]"
        "[8, 8, 8, 8, 8]"] r
    by simp
  moreover have "topk partial_sort_by_selection [1, 5, 3, 5, 2 :: int] [9, 9, 9, 9] 2 5 = None"
    using t [of "[1, 5, 3, 5, 2 :: int]" "[9, 9, 9, 9]" 2 5] by simp
  ultimately show ?thesis using r partial_sort_by_selection_conforms by blast
qed

text \<open>
  Claim C10. For \<open>k \<le> size\<close>, after \<open>topk\<close> the values at the first \<open>k\<close>
  returned indices are in non-increasing order:
  \<open>x[indices[p]] \<ge> x[indices[q]]\<close> for all \<open>p < q < k\<close>.
\<close>

theorem topk_first_k_descending:
  fixes x :: "'a::linorder list"
  assumes "partial_sort_contract ps"
  shows "k \<le> sz \<and> sz \<le> length x \<and> sz \<le> length indices \<longrightarrow>
           (\<exists>ind'. topk ps x indices k sz = Some ind'
              \<and> (\<forall>p q. p < q \<and> q < k \<longrightarrow> x ! (ind' ! q) \<le> x ! (ind' ! p)))"
proof
  assume "k \<le> sz \<and> sz \<le> length x \<and> sz \<le> length indices"
  then obtain ind' where r: "topk ps x indices k sz = Some ind'"
    by (simp add: topk_defined)
  have len: "length (take k ind') = k" by (rule topk_selection(1) [OF assms r])
  have "sorted_wrt (\<lambda>i j. x ! j \<le> x ! i) (take k ind')"
    by (rule topk_selection(5) [OF assms r])
  then have st: "\<forall>p q. p < q \<longrightarrow> q < k \<longrightarrow> x ! (take k ind' ! q) \<le> x ! (take k ind' ! p)"
    unfolding sorted_wrt_iff_nth_less len by blast
  have "x ! (ind' ! q) \<le> x ! (ind' ! p)" if "p < q \<and> q < k" for p q
  proof -
    have "p < k" "q < k" using that by simp_all
    then show ?thesis using st [rule_format, of p q] that by simp
  qed
  with r show "\<exists>ind'. topk ps x indices k sz = Some ind'
              \<and> (\<forall>p q. p < q \<and> q < k \<longrightarrow> x ! (ind' ! q) \<le> x ! (ind' ! p))"
    by blast
qed

theorem topk_first_k_descending_witness:
  "partial_sort_contract partial_sort_by_selection
   \<and> topk partial_sort_by_selection [1, 5, 3, 7, 2, 6 :: int] [0, 0, 0, 0, 0, 0] 3 6
       = Some [3, 5, 1, 0, 4, 2]
   \<and> (\<exists>ind'. topk partial_sort_by_selection [1, 5, 3, 7, 2, 6 :: int] [0, 0, 0, 0, 0, 0] 3 6
                = Some ind'
         \<and> (\<forall>p q. p < q \<and> q < 3 \<longrightarrow>
               [1, 5, 3, 7, 2, 6 :: int] ! (ind' ! q) \<le> [1, 5, 3, 7, 2, 6] ! (ind' ! p)))"
proof -
  have "topk partial_sort_by_selection [1, 5, 3, 7, 2, 6 :: int] [0, 0, 0, 0, 0, 0] 3 6
       = Some [3, 5, 1, 0, 4, 2]"
    by code_simp
  moreover have "\<exists>ind'. topk partial_sort_by_selection [1, 5, 3, 7, 2, 6 :: int]
                  [0, 0, 0, 0, 0, 0] 3 6 = Some ind'
         \<and> (\<forall>p q. p < q \<and> q < 3 \<longrightarrow>
               [1, 5, 3, 7, 2, 6 :: int] ! (ind' ! q) \<le> [1, 5, 3, 7, 2, 6] ! (ind' ! p))"
    using topk_first_k_descending [OF partial_sort_by_selection_conforms,
        of 3 6 "[1, 5, 3, 7, 2, 6 :: int]" "[0, 0, 0, 0, 0, 0]"]
    by simp
  ultimately show ?thesis using partial_sort_by_selection_conforms by blast
qed

section \<open>Batched matrix product\<close>

text \<open>A loop is the fold of its iterations over the index range, stopping at a failure.\<close>

lemma fold_bind_None: "fold (\<lambda>j r. Option.bind r (body j)) js None = None"
  by (induction js) simp_all

lemma for_loop_fold_bind:
  "for_loop i n body s = fold (\<lambda>j r. Option.bind r (body j)) [i..<n] (Some s)"
proof (induction "n - i" arbitrary: i s)
  case 0
  then show ?case by (simp add: for_loop_stop)
next
  case (Suc d)
  then have lt: "i < n" by simp
  have d: "d = n - Suc i" using Suc.hyps(2) by simp
  show ?case
  proof (cases "body i s")
    case None
    then show ?thesis using lt
      by (subst for_loop.simps) (simp add: upt_conv_Cons fold_bind_None)
  next
    case (Some t)
    then show ?thesis using lt Suc.hyps(1) [OF d, of t]
      by (subst for_loop.simps) (simp add: upt_conv_Cons)
  qed
qed

lemma fold_snoc_map: "fold (\<lambda>i cs. cs @ [f i]) js cs0 = cs0 @ map f js"
  by (induction js arbitrary: cs0) simp_all

text \<open>
  Claim C5. For every \<open>gemm\<close> backend, \<open>gemm_batch\<close> is the sequence of the calls
  \<open>gemm(a + i*m*k, b + i*k*n, transpose_a, transpose_b, m, n, k, alpha, beta, c + i*m*n)\<close>
  for \<open>i = 0, ..., batch_size - 1\<close> in this order, each on the memory the previous call
  left; a backend that records its calls receives exactly these argument tuples, once
  each, in order of increasing \<open>i\<close>; consecutive slices are contiguous (slice \<open>i + 1\<close>
  starts \<open>m*k\<close>, \<open>k*n\<close>, \<open>m*n\<close> elements after slice \<open>i\<close>); and with
  \<open>batch_size = 1\<close> the result is that of the single call \<open>gemm(a, b, ..., c)\<close>.
\<close>

theorem gemm_batch_calls_gemm_per_slice:
  fixes gemm :: "('i, 'o, 'mem) gemm_fn" and alpha :: 'i and beta :: 'o
  shows "gemm_batch gemm a b transpose_a transpose_b batch_size m n k alpha beta c mem
     = fold (\<lambda>i r. Option.bind r
               (gemm (a + i * m * k) (b + i * k * n) transpose_a transpose_b m n k alpha beta
                  (c + i * m * n)))
         [0..<batch_size] (Some mem)
   \<and> gemm_batch gemm_recording a b transpose_a transpose_b batch_size m n k alpha beta c []
     = Some (map (\<lambda>i. (a + i * m * k, b + i * k * n, transpose_a, transpose_b, m, n, k,
                         alpha, beta, c + i * m * n)) [0..<batch_size])
   \<and> a + Suc i * m * k = (a + i * m * k) + m * k
   \<and> b + Suc i * k * n = (b + i * k * n) + k * n
   \<and> c + Suc i * m * n = (c + i * m * n) + m * n
   \<and> gemm_batch gemm a b transpose_a transpose_b 1 m n k alpha beta c mem
     = gemm a b transpose_a transpose_b m n k alpha beta c mem"
proof -
  have p1: "gemm_batch gemm a b transpose_a transpose_b batch_size m n k alpha beta c mem
     = fold (\<lambda>i r. Option.bind r
               (gemm (a + i * m * k) (b + i * k * n) transpose_a transpose_b m n k alpha beta
                  (c + i * m * n)))
         [0..<batch_size] (Some mem)"
    by (simp add: gemm_batch_def for_loop_fold_bind)
  have "gemm_batch gemm_recording a b transpose_a transpose_b batch_size m n k alpha beta c []
     = Some (fold (\<lambda>i cs. cs @ [(a + i * m * k, b + i * k * n, transpose_a, transpose_b,
                                  m, n, k, alpha, beta, c + i * m * n)]) [0..<batch_size] [])"
    unfolding gemm_batch_def
    using for_loop_fold [where P = "\<lambda>_. True" and i = 0 and n = batch_size
        and s = "[] :: ('i, 'o) gemm_call list"
        and f = "\<lambda>i cs. cs @ [(a + i * m * k, b + i * k * n, transpose_a, transpose_b,
                                  m, n, k, alpha, beta, c + i * m * n)]"]
    by (simp add: gemm_recording_def)
  then have p2: "gemm_batch gemm_recording a b transpose_a transpose_b batch_size m n k
        alpha beta c []
     = Some (map (\<lambda>i. (a + i * m * k, b + i * k * n, transpose_a, transpose_b, m, n, k,
                         alpha, beta, c + i * m * n)) [0..<batch_size])"
    by (simp add: fold_snoc_map)
  have p3: "gemm_batch gemm a b transpose_a transpose_b 1 m n k alpha beta c mem
     = gemm a b transpose_a transpose_b m n k alpha beta c mem"
    by (simp add: gemm_batch_def for_loop_fold_bind)
  have p4: "a + Suc i * m * k = (a + i * m * k) + m * k"
    "b + Suc i * k * n = (b + i * k * n) + k * n"
    "c + Suc i * m * n = (c + i * m * n) + m * n"
    by (simp_all add: algebra_simps)
  show ?thesis using p1 p2 p3 p4 by (intro conjI)
qed

section \<open>Transposition\<close>

text \<open>
  A loop nest that only stores into the output buffer is a fold of the stores over the
  index tuples in loop order; where the destination index is injective on the tuples,
  no store is overwritten.
\<close>

lemma fold_product:
  "fold (\<lambda>x. fold (g x) ys) xs s = fold (\<lambda>(x, y). g x y) (List.product xs ys) s"
  by (induction xs arbitrary: s) (simp_all add: fold_map comp_def)

lemma fold_writes_length: "length (fold (\<lambda>k b. b[w k := v k]) ks b) = length b"
  by (induction ks arbitrary: b) simp_all

lemma fold_writes_nth:
  assumes "inj_on w (set ks)" "k \<in> set ks" "w k < length b"
  shows "fold (\<lambda>k b. b[w k := v k]) ks b ! w k = v k"
  using assms(1,2)
proof (induction ks rule: rev_induct)
  case Nil
  then show ?case by simp
next
  case (snoc x ks)
  show ?case
  proof (cases "k = x")
    case True
    then show ?thesis using assms(3) by (simp add: fold_writes_length)
  next
    case False
    then have k: "k \<in> set ks" using snoc.prems(2) by simp
    have "w x \<noteq> w k" using snoc.prems(1) False k by (auto simp: inj_on_def)
    moreover have "inj_on w (set ks)" using snoc.prems(1) by (simp add: inj_on_def)
    ultimately show ?thesis using snoc.IH k by simp
  qed
qed

lemma index_in_range: "i < (d0::nat) \<Longrightarrow> j < d1 \<Longrightarrow> i * d1 + j < d0 * d1"
proof -
  assume a: "i < d0" "j < d1"
  have "i * d1 + j < Suc i * d1" using a(2) by simp
  also have "\<dots> \<le> d0 * d1" using a(1) by (intro mult_le_mono1) simp
  finally show ?thesis .
qed

lemma index_unique:
  assumes "i * d + j = i' * d + j'" "j < (d::nat)" "j' < d"
  shows "i = i' \<and> j = j'"
proof -
  have "(i * d + j) div d = i" "(i' * d + j') div d = i'" using assms(2,3) by simp_all
  then have "i = i'" using assms(1) by simp
  then show ?thesis using assms(1) by simp
qed

lemma transpose_2d_loops:
  assumes "d0 * d1 \<le> length a" "d0 * d1 \<le> length b"
  shows "transpose_2d a [d0, d1] b
         = Some (fold (\<lambda>k b. b[snd k * d0 + fst k := a ! (fst k * d1 + snd k)])
                   (List.product [0..<d0] [0..<d1]) b)"
proof -
  let ?P = "\<lambda>t :: 'a list. length t = length b"
  let ?inner = "\<lambda>i0 i1 (t :: 'a list). t[i1 * d0 + i0 := a ! (i0 * d1 + i1)]"
  have inner: "for_loop 0 d1 (\<lambda>i1 b. do { v \<leftarrow> rd a (i0 * d1 + i1); wr b (i1 * d0 + i0) v }) t
               = Some (fold (?inner i0) [0..<d1] t) \<and> ?P (fold (?inner i0) [0..<d1] t)"
    if "i0 < d0" "?P t" for i0 t
  proof (rule for_loop_fold [where P = ?P])
    show "?P t" by (rule that)
    fix i1 and u :: "'a list"
    assume i1: "i1 < d1" and u: "?P u"
    have "i0 * d1 + i1 < length a" using index_in_range [OF that(1) i1] assms(1) by simp
    moreover have "i1 * d0 + i0 < length u"
      using index_in_range [OF i1 that(1)] assms(2) u by (simp add: mult.commute)
    ultimately show "do { v \<leftarrow> rd a (i0 * d1 + i1); wr u (i1 * d0 + i0) v }
                     = Some (?inner i0 i1 u) \<and> ?P (?inner i0 i1 u)"
      using u by (simp add: rd_def wr_def)
  qed
  have "for_loop 0 d0 (\<lambda>i0 b. do { d1' \<leftarrow> rd [d0, d1] 1;
            for_loop 0 d1' (\<lambda>i1 b. do { v \<leftarrow> rd a (i0 * d1' + i1); wr b (i1 * d0 + i0) v }) b }) b
        = Some (fold (\<lambda>i0. fold (?inner i0) [0..<d1]) [0..<d0] b)
          \<and> ?P (fold (\<lambda>i0. fold (?inner i0) [0..<d1]) [0..<d0] b)"
  proof (rule for_loop_fold [where P = ?P])
    show "?P b" by simp
    fix i0 and t :: "'a list"
    assume "i0 < d0" "?P t"
    from inner [OF this]
    show "do { d1' \<leftarrow> rd [d0, d1] 1;
            for_loop 0 d1' (\<lambda>i1 b. do { v \<leftarrow> rd a (i0 * d1' + i1); wr b (i1 * d0 + i0) v }) t }
          = Some (fold (?inner i0) [0..<d1] t) \<and> ?P (fold (?inner i0) [0..<d1] t)"
      by (simp add: rd_def)
  qed
  then show ?thesis
    by (simp add: transpose_2d_def rd_def fold_product case_prod_unfold)
qed


lemma transpose_2d_entries:
  assumes "d0 * d1 \<le> length a" "d0 * d1 \<le> length b"
  shows "\<exists>b'. transpose_2d a [d0, d1] b = Some b' \<and> length b' = length b
           \<and> (\<forall>i0 i1. i0 < d0 \<and> i1 < d1 \<longrightarrow> b' ! (i1 * d0 + i0) = a ! (i0 * d1 + i1))"
proof -
  let ?w = "\<lambda>k :: nat \<times> nat. snd k * d0 + fst k"
  let ?v = "\<lambda>k :: nat \<times> nat. a ! (fst k * d1 + snd k)"
  let ?ks = "List.product [0..<d0] [0..<d1]"
  let ?b' = "fold (\<lambda>k b. b[?w k := ?v k]) ?ks b"
  have inj: "inj_on ?w (set ?ks)"
  proof (rule inj_onI)
    fix k k' assume "k \<in> set ?ks" "k' \<in> set ?ks" "?w k = ?w k'"
    then show "k = k'"
      using index_unique [of "snd k" d0 "fst k" "snd k'" "fst k'"]
      by (auto simp: prod_eq_iff)
  qed
  have "?b' ! (i1 * d0 + i0) = a ! (i0 * d1 + i1)" if "i0 < d0 \<and> i1 < d1" for i0 i1
  proof -
    have "(i0, i1) \<in> set ?ks" using that by simp
    moreover have "?w (i0, i1) < length b"
      using index_in_range [of i1 d1 i0 d0] that assms(2) by (simp add: mult.commute)
    ultimately show ?thesis
      using fold_writes_nth [OF inj, of "(i0, i1)" b ?v] by simp
  qed
  then show ?thesis
    using transpose_2d_loops [OF assms] by (simp add: fold_writes_length)
qed

text \<open>
  Claim C7. With \<open>dims = [d0, d1]\<close> and buffers of at least \<open>d0 * d1\<close> elements,
  \<open>transpose_2d\<close> returns and leaves \<open>b[i1*d0 + i0] = a[i0*d1 + i1]\<close> for every
  \<open>i0 < d0\<close> and \<open>i1 < d1\<close>; on \<open>dims = [2,3]\<close> and the input \<open>[1,2,3,4,5,6]\<close>
  the output is \<open>[1,4,2,5,3,6]\<close>.
\<close>

theorem transpose_2d_transposes:
  "(d0 * d1 \<le> length a \<and> d0 * d1 \<le> length b \<longrightarrow>
      (\<exists>b'. transpose_2d a [d0, d1] b = Some b' \<and> length b' = length b
           \<and> (\<forall>i0 i1. i0 < d0 \<and> i1 < d1 \<longrightarrow> b' ! (i1 * d0 + i0) = a ! (i0 * d1 + i1))))
   \<and> transpose_2d [1, 2, 3, 4, 5, 6 :: int] [2, 3] [0, 0, 0, 0, 0, 0] = Some [1, 4, 2, 5, 3, 6]"
proof
  show "d0 * d1 \<le> length a \<and> d0 * d1 \<le> length b \<longrightarrow>
      (\<exists>b'. transpose_2d a [d0, d1] b = Some b' \<and> length b' = length b
           \<and> (\<forall>i0 i1. i0 < d0 \<and> i1 < d1 \<longrightarrow> b' ! (i1 * d0 + i0) = a ! (i0 * d1 + i1)))"
    using transpose_2d_entries by blast
  show "transpose_2d [1, 2, 3, 4, 5, 6 :: int] [2, 3] [0, 0, 0, 0, 0, 0] = Some [1, 4, 2, 5, 3, 6]"
    by code_simp
qed

theorem transpose_2d_transposes_witness:
  "transpose_2d [10, 20, 30, 40, 50, 60 :: int] [3, 2] [0, 0, 0, 0, 0, 0, 7]
     = Some [10, 30, 50, 20, 40, 60, 7]
   \<and> (\<exists>b'. transpose_2d [10, 20, 30, 40, 50, 60 :: int] [3, 2] [0, 0, 0, 0, 0, 0, 7] = Some b'
         \<and> length b' = length [0, 0, 0, 0, 0, 0, 7 :: int]
         \<and> (\<forall>i0 i1. i0 < 3 \<and> i1 < 2 \<longrightarrow>
               b' ! (i1 * 3 + i0) = [10, 20, 30, 40, 50, 60 :: int] ! (i0 * 2 + i1)))"
proof -
  have "transpose_2d [10, 20, 30, 40, 50, 60 :: int] [3, 2] [0, 0, 0, 0, 0, 0, 7]
     = Some [10, 30, 50, 20, 40, 60, 7]"
    by code_simp
  moreover have "\<exists>b'. transpose_2d [10, 20, 30, 40, 50, 60 :: int] [3, 2] [0, 0, 0, 0, 0, 0, 7]
           = Some b'
         \<and> length b' = length [0, 0, 0, 0, 0, 0, 7 :: int]
         \<and> (\<forall>i0 i1. i0 < 3 \<and> i1 < 2 \<longrightarrow>
               b' ! (i1 * 3 + i0) = [10, 20, 30, 40, 50, 60 :: int] ! (i0 * 2 + i1))"
    using transpose_2d_transposes
      [of 3 2 "[10, 20, 30, 40, 50, 60 :: int]" "[0, 0, 0, 0, 0, 0, 7]", THEN conjunct1]
    by simp
  ultimately show ?thesis by blast
qed

text \<open>
  The row-major linear index is below the number of elements and determines the
  multi-index; permuting the axes by a bijection keeps the number of elements.
\<close>

lemma row_major_bound:
  "list_all2 (<) js es \<Longrightarrow> row_major es js < prod_list es"
proof (induction js es rule: list_all2_induct)
  case Nil
  show ?case by simp
next
  case (Cons j js e es)
  have "j * prod_list es + row_major es js < Suc j * prod_list es"
    using Cons.IH by simp
  also have "\<dots> \<le> e * prod_list es"
    using Cons.hyps(1) by (intro mult_le_mono1) simp
  finally show ?case by simp
qed

lemma row_major_unique:
  "list_all2 (<) js es \<Longrightarrow> list_all2 (<) js' es \<Longrightarrow> row_major es js = row_major es js'
   \<Longrightarrow> js = js'"
proof (induction js es arbitrary: js' rule: list_all2_induct)
  case Nil
  then show ?case by simp
next
  case (Cons j js e es)
  from Cons.prems(1) obtain j' jt' where js': "js' = j' # jt'" "j' < e" "list_all2 (<) jt' es"
    by (auto simp: list_all2_Cons2)
  have "j = j' \<and> row_major es js = row_major es jt'"
  proof (rule index_unique)
    show "j * prod_list es + row_major es js = j' * prod_list es + row_major es jt'"
      using Cons.prems(2) js'(1) by simp
    show "row_major es js < prod_list es" by (rule row_major_bound [OF Cons.hyps(2)])
    show "row_major es jt' < prod_list es" by (rule row_major_bound [OF js'(3)])
  qed
  then show ?case using Cons.IH [OF js'(3)] js'(1) by simp
qed

lemma permutation_mset:
  assumes "distinct perm" "set perm = {0..<n}"
  shows "mset perm = mset [0..<n]"
proof -
  have "set perm = set [0..<n]" using assms(2) by simp
  then show ?thesis
    using assms(1) set_eq_iff_mset_eq_distinct [of perm "[0..<n]"] by (simp del: mset_upt)
qed

lemma permutation_length:
  assumes "distinct perm" "set perm = {0..<n}"
  shows "length perm = n"
  using mset_eq_length [OF permutation_mset [OF assms]] by simp

lemma prod_list_permuted:
  fixes dims :: "nat list"
  assumes "distinct perm" "set perm = {0..<length dims}"
  shows "prod_list (permuted perm dims) = prod_list dims"
proof -
  have "mset (permuted perm dims) = image_mset (\<lambda>p. dims ! p) (mset perm)"
    by (simp add: permuted_def)
  also have "\<dots> = image_mset (\<lambda>p. dims ! p) (mset [0..<length dims])"
    by (simp only: permutation_mset [OF assms])
  also have "\<dots> = mset (map (\<lambda>p. dims ! p) [0..<length dims])" by simp
  also have "\<dots> = mset dims" by (simp only: map_nth)
  finally have "prod_mset (mset (permuted perm dims)) = prod_mset (mset dims)" by simp
  then show ?thesis by (simp only: prod_mset_prod_list)
qed

lemma permuted_unique:
  assumes "set perm = {0..<n}" "length xs = n" "length ys = n"
    and "permuted perm xs = permuted perm ys"
  shows "xs = ys"
proof (rule nth_equalityI)
  show "length xs = length ys" using assms(2,3) by simp
  fix i assume "i < length xs"
  then have "i \<in> set perm" using assms(1,2) by simp
  then show "xs ! i = ys ! i" using assms(4) by (simp add: permuted_def)
qed

lemma permuted_in_range:
  assumes "set perm = {0..<n}" "length js = n" "length es = n" "\<forall>i < n. js ! i < es ! i"
  shows "list_all2 (<) (permuted perm js) (permuted perm es)"
proof -
  have "js ! p < es ! p" if "p \<in> set perm" for p
    using that assms(1,4) by simp
  then show ?thesis
    by (simp add: permuted_def list_all2_conv_all_nth)
qed

text \<open>
  For a bijective \<open>perm\<close> the first loop of \<open>transpose_3d\<close> and \<open>transpose_4d\<close>
  initialises every cell of \<open>perm_ind\<close>, with the inverse permutation.
\<close>

lemma perm_ind_loop:
  assumes "distinct perm" "set perm = {0..<n}"
  shows "\<exists>pind. for_loop 0 n (\<lambda>i pind. do { p \<leftarrow> rd perm i; wr pind p (Some i) })
                  (replicate n None) = Some pind
           \<and> (length pind = n \<and> (\<forall>i < n. pind ! (perm ! i) = Some i))"
proof (rule for_loop_invariant
    [where I = "\<lambda>j t. length t = n \<and> (\<forall>i < j. t ! (perm ! i) = Some i)"])
  have len: "length perm = n" by (rule permutation_length [OF assms])
  show "length (replicate n None) = n \<and> (\<forall>i < 0. replicate n None ! (perm ! i) = Some i)"
    by simp
  show "0 \<le> n" by simp
  fix j and t :: "nat option list"
  assume j: "0 \<le> j" "j < n" and inv: "length t = n \<and> (\<forall>i < j. t ! (perm ! i) = Some i)"
  have pj: "perm ! j < n" using assms(2) j(2) len by (metis atLeastLessThan_iff nth_mem)
  have body: "do { p \<leftarrow> rd perm j; wr t p (Some j) } = Some (t[perm ! j := Some j])"
    using j(2) len pj inv by (simp add: rd_def wr_def)
  have "t[perm ! j := Some j] ! (perm ! i) = Some i" if "i < Suc j" for i
  proof (cases "i = j")
    case True
    then show ?thesis using pj inv by simp
  next
    case False
    then have "i < j" using that by simp
    moreover have "perm ! i \<noteq> perm ! j"
      using assms(1) False \<open>i < j\<close> j(2) len by (simp add: nth_eq_iff_index_eq)
    ultimately show ?thesis using inv by simp
  qed
  then show "\<exists>t'. do { p \<leftarrow> rd perm j; wr t p (Some j) } = Some t'
       \<and> (length t' = n \<and> (\<forall>i < Suc j. t' ! (perm ! i) = Some i))"
    using body inv by simp
qed

lemma perm_ind_read:
  assumes "set perm = {0..<n}" "length perm = n"
    and "length pind = n" "\<forall>i < n. pind ! (perm ! i) = Some i" "j < n"
  shows "\<exists>q < n. rd_init pind j = Some q \<and> perm ! q = j"
proof -
  have "j \<in> set perm" using assms(1,5) by simp
  then obtain q where q: "q < n" "perm ! q = j"
    using assms(2) by (auto simp: in_set_conv_nth)
  then have "rd_init pind j = Some q"
    using assms(3,4,5) by (auto simp: rd_init_def rd_def)
  with q show ?thesis by blast
qed


text \<open>
  Summing the source indices against the strides looked up through \<open>perm_ind\<close> is
  summing the permuted indices against the strides of the permuted extents.
\<close>

lemma stride_reindex:
  fixes idx bs :: "nat \<Rightarrow> nat"
  assumes "distinct perm" "length perm = n" "\<forall>p < n. perm ! p < n"
    and "\<forall>j < n. q j < n \<and> perm ! (q j) = j"
  shows "(\<Sum>j < n. idx j * bs (q j)) = (\<Sum>p < n. idx (perm ! p) * bs p)"
proof -
  have inv: "q (perm ! p) = p" if "p < n" for p
  proof -
    have pn: "perm ! p < n" using assms(3) that by simp
    then have "q (perm ! p) < n" "perm ! (q (perm ! p)) = perm ! p" using assms(4) by simp_all
    then show ?thesis using assms(1,2) that by (simp add: nth_eq_iff_index_eq)
  qed
  show ?thesis
  proof (rule sum.reindex_bij_witness [where i = "\<lambda>p. perm ! p" and j = q])
    fix j assume j: "j \<in> {..<n}"
    show "perm ! (q j) = j" using assms(4) j by simp
    show "q j \<in> {..<n}" using assms(4) j by simp
    show "idx (perm ! q j) * bs (q j) = idx j * bs (q j)" using assms(4) j by simp
  next
    fix p assume p: "p \<in> {..<n}"
    show "q (perm ! p) = p" using inv p by simp
    show "perm ! p \<in> {..<n}" using assms(3) p by simp
  qed
qed

lemma sum_below_3: "(\<Sum>j < 3. f j) = f 0 + f 1 + (f 2 :: nat)" for f :: "nat \<Rightarrow> nat"
  by (simp add: eval_nat_numeral)

lemma rd_in_range: "i < length xs \<Longrightarrow> rd xs i = Some (xs ! i)"
  by (simp add: rd_def)

lemma transpose_3d_strides:
  assumes "length dims = 3" "distinct perm" "set perm = {0..<3}"
  shows "\<exists>s0 s1 s2.
     transpose_3d a dims perm b =
       for_loop 0 (dims ! 0) (\<lambda>i0.
         for_loop 0 (dims ! 1) (\<lambda>i1.
           for_loop 0 (dims ! 2) (\<lambda>i2 b.
             do { v \<leftarrow> rd a (i0 * (dims ! 1 * dims ! 2) + i1 * dims ! 2 + i2);
                  wr b (i0 * s0 + i1 * s1 + i2 * s2) v }))) b
     \<and> (\<forall>i0 i1 i2. i0 * s0 + i1 * s1 + i2 * s2
           = row_major (permuted perm dims) (permuted perm [i0, i1, i2]))"
proof -
  have len: "length perm = 3" by (rule permutation_length [OF assms(2,3)])
  have rng: "\<forall>p < 3. perm ! p < 3" using assms(3) len by (metis atLeastLessThan_iff nth_mem)
  obtain pind where pind: "for_loop 0 3 (\<lambda>i pind. do { p \<leftarrow> rd perm i; wr pind p (Some i) })
                  [None, None, None] = Some pind"
    "length pind = 3" "\<forall>i < 3. pind ! (perm ! i) = Some i"
    using perm_ind_loop [OF assms(2,3)] by (auto simp: numeral_3_eq_3)
  note rdq = perm_ind_read [OF assms(3) len pind(2,3)]
  obtain q0 where q0: "q0 < 3" "rd_init pind 0 = Some q0" "perm ! q0 = 0" using rdq [of 0] by auto
  obtain q1 where q1: "q1 < 3" "rd_init pind 1 = Some q1" "perm ! q1 = 1" using rdq [of 1] by auto
  obtain q2 where q2: "q2 < 3" "rd_init pind 2 = Some q2" "perm ! q2 = 2" using rdq [of 2] by auto
  define bstr where "bstr = [dims ! (perm ! 1) * dims ! (perm ! 2), dims ! (perm ! 2), 1]"
  have eq: "transpose_3d a dims perm b =
       for_loop 0 (dims ! 0) (\<lambda>i0.
         for_loop 0 (dims ! 1) (\<lambda>i1.
           for_loop 0 (dims ! 2) (\<lambda>i2 b.
             do { v \<leftarrow> rd a (i0 * (dims ! 1 * dims ! 2) + i1 * dims ! 2 + i2);
                  wr b (i0 * bstr ! q0 + i1 * bstr ! q1 + i2 * bstr ! q2) v }))) b"
    using pind(1) q0 q1 q2 rng assms(1) len
    by (simp add: transpose_3d_def rd_in_range bstr_def Let_def)
  have "i0 * bstr ! q0 + i1 * bstr ! q1 + i2 * bstr ! q2
           = row_major (permuted perm dims) (permuted perm [i0, i1, i2])" for i0 i1 i2
  proof -
    let ?idx = "\<lambda>j. [i0, i1, i2] ! j" and ?q = "\<lambda>j. [q0, q1, q2] ! j"
    have q: "\<forall>j < 3. ?q j < 3 \<and> perm ! (?q j) = j"
      using q0 q1 q2 by (auto simp: less_Suc_eq numeral_3_eq_3)
    have "i0 * bstr ! q0 + i1 * bstr ! q1 + i2 * bstr ! q2
          = (\<Sum>j < 3. ?idx j * bstr ! (?q j))"
      by (simp add: sum_below_3)
    also have "\<dots> = (\<Sum>p < 3. ?idx (perm ! p) * bstr ! p)"
      by (rule stride_reindex [OF assms(2) len rng q])
    also have "\<dots> = row_major (permuted perm dims) (permuted perm [i0, i1, i2])"
    proof -
      obtain p0 p1 p2 where perm: "perm = [p0, p1, p2]"
        using len by (auto simp: length_Suc_conv numeral_3_eq_3)
      show ?thesis by (simp add: sum_below_3 perm permuted_def bstr_def)
    qed
    finally show ?thesis .
  qed
  with eq show ?thesis by blast
qed


lemma copy_loop_fold:
  assumes "\<forall>i < n. wa i < length a \<and> wb i < length b"
    and "length t = length b"
  shows "for_loop 0 n (\<lambda>i b. do { v \<leftarrow> rd a (wa i); wr b (wb i) v }) t
           = Some (fold (\<lambda>i t. t[wb i := a ! wa i]) [0..<n] t)
         \<and> length (fold (\<lambda>i t. t[wb i := a ! wa i]) [0..<n] t) = length b"
proof (rule for_loop_fold [where P = "\<lambda>t. length t = length b"])
  show "length t = length b" by (rule assms(2))
  fix i and u :: "'a list"
  assume "i < n" "length u = length b"
  then show "do { v \<leftarrow> rd a (wa i); wr u (wb i) v } = Some (u[wb i := a ! wa i])
             \<and> length (u[wb i := a ! wa i]) = length b"
    using assms(1) by (simp add: rd_def wr_def)
qed

lemma nested_loop_fold:
  assumes "\<And>i t. i < n \<Longrightarrow> length t = length b
             \<Longrightarrow> inner i t = Some (f i t) \<and> length (f i t) = length b"
    and "length t = length b"
  shows "for_loop 0 n inner t = Some (fold f [0..<n] t)
         \<and> length (fold f [0..<n] t) = length b"
  by (rule for_loop_fold [where P = "\<lambda>t. length t = length b"]) (use assms in auto)

lemma loop3_fold:
  assumes "\<forall>i0 < d0. \<forall>i1 < d1. \<forall>i2 < d2. wa i0 i1 i2 < length a \<and> wb i0 i1 i2 < length b"
  shows "for_loop 0 d0 (\<lambda>i0.
           for_loop 0 d1 (\<lambda>i1.
             for_loop 0 d2 (\<lambda>i2 b. do { v \<leftarrow> rd a (wa i0 i1 i2); wr b (wb i0 i1 i2) v }))) b
         = Some (fold (\<lambda>k t. t[wb (fst (fst k)) (snd (fst k)) (snd k)
                                 := a ! wa (fst (fst k)) (snd (fst k)) (snd k)])
                   (List.product (List.product [0..<d0] [0..<d1]) [0..<d2]) b)"
proof -
  let ?g = "\<lambda>i0 i1 i2 (t :: 'a list). t[wb i0 i1 i2 := a ! wa i0 i1 i2]"
  have l2: "for_loop 0 d2 (\<lambda>i2 b. do { v \<leftarrow> rd a (wa i0 i1 i2); wr b (wb i0 i1 i2) v }) t
              = Some (fold (?g i0 i1) [0..<d2] t)
            \<and> length (fold (?g i0 i1) [0..<d2] t) = length b"
    if "i0 < d0" "i1 < d1" "length t = length b" for i0 i1 t
    using copy_loop_fold [of d2 "wa i0 i1" a "wb i0 i1" b t] assms that by simp
  have l1: "for_loop 0 d1 (\<lambda>i1.
             for_loop 0 d2 (\<lambda>i2 b. do { v \<leftarrow> rd a (wa i0 i1 i2); wr b (wb i0 i1 i2) v })) t
              = Some (fold (\<lambda>i1. fold (?g i0 i1) [0..<d2]) [0..<d1] t)
            \<and> length (fold (\<lambda>i1. fold (?g i0 i1) [0..<d2]) [0..<d1] t) = length b"
    if "i0 < d0" "length t = length b" for i0 t
    by (rule nested_loop_fold) (use l2 that in auto)
  have l0: "for_loop 0 d0 (\<lambda>i0.
           for_loop 0 d1 (\<lambda>i1.
             for_loop 0 d2 (\<lambda>i2 b. do { v \<leftarrow> rd a (wa i0 i1 i2); wr b (wb i0 i1 i2) v }))) b
              = Some (fold (\<lambda>i0. fold (\<lambda>i1. fold (?g i0 i1) [0..<d2]) [0..<d1]) [0..<d0] b)
            \<and> length (fold (\<lambda>i0. fold (\<lambda>i1. fold (?g i0 i1) [0..<d2]) [0..<d1]) [0..<d0] b)
                = length b"
    by (rule nested_loop_fold) (use l1 in auto)
  have "fold (\<lambda>i0. fold (\<lambda>i1. fold (?g i0 i1) [0..<d2]) [0..<d1]) [0..<d0] b
        = fold (\<lambda>k t. t[wb (fst (fst k)) (snd (fst k)) (snd k)
                          := a ! wa (fst (fst k)) (snd (fst k)) (snd k)])
            (List.product (List.product [0..<d0] [0..<d1]) [0..<d2]) b"
    by (simp add: fold_product case_prod_unfold)
  with l0 show ?thesis by simp
qed


lemma transpose_3d_entries:
  assumes "length dims = 3" "distinct perm" "set perm = {0..<3}"
    and "prod_list dims \<le> length a" "prod_list dims \<le> length b"
  shows "\<exists>b'. transpose_3d a dims perm b = Some b' \<and> length b' = length b
           \<and> (\<forall>i0 i1 i2. i0 < dims ! 0 \<and> i1 < dims ! 1 \<and> i2 < dims ! 2 \<longrightarrow>
                 b' ! row_major (permuted perm dims) (permuted perm [i0, i1, i2])
                   = a ! row_major dims [i0, i1, i2])"
proof -
  obtain d0 d1 d2 where dims: "dims = [d0, d1, d2]"
    using assms(1) by (auto simp: length_Suc_conv numeral_3_eq_3)
  let ?src = "\<lambda>i0 i1 i2. row_major dims [i0, i1, i2]"
  let ?dst = "\<lambda>i0 i1 i2. row_major (permuted perm dims) (permuted perm [i0, i1, i2])"
  let ?ks = "List.product (List.product [0..<d0] [0..<d1]) [0..<d2]"
  let ?w = "\<lambda>k :: (nat \<times> nat) \<times> nat. ?dst (fst (fst k)) (snd (fst k)) (snd k)"
  let ?v = "\<lambda>k :: (nat \<times> nat) \<times> nat. a ! ?src (fst (fst k)) (snd (fst k)) (snd k)"
  let ?b' = "fold (\<lambda>k t. t[?w k := ?v k]) ?ks b"
  have set3: "set perm = {0..<length dims}" using assms(1,3) by simp
  have in_range: "list_all2 (<) (permuted perm [i0, i1, i2]) (permuted perm dims)"
    if "i0 < d0" "i1 < d1" "i2 < d2" for i0 i1 i2
    by (rule permuted_in_range [OF assms(3)])
      (use that dims in \<open>auto simp: less_Suc_eq numeral_3_eq_3\<close>)
  have src_bound: "?src i0 i1 i2 < length a" if "i0 < d0" "i1 < d1" "i2 < d2" for i0 i1 i2
  proof -
    have "list_all2 (<) [i0, i1, i2] dims" using that dims by simp
    from row_major_bound [OF this] show ?thesis using assms(4) by simp
  qed
  have dst_bound: "?dst i0 i1 i2 < length b" if "i0 < d0" "i1 < d1" "i2 < d2" for i0 i1 i2
    using row_major_bound [OF in_range [OF that]] prod_list_permuted [OF assms(2) set3] assms(5)
    by simp
  obtain s0 s1 s2 where
    run: "transpose_3d a dims perm b =
       for_loop 0 (dims ! 0) (\<lambda>i0.
         for_loop 0 (dims ! 1) (\<lambda>i1.
           for_loop 0 (dims ! 2) (\<lambda>i2 b.
             do { v \<leftarrow> rd a (i0 * (dims ! 1 * dims ! 2) + i1 * dims ! 2 + i2);
                  wr b (i0 * s0 + i1 * s1 + i2 * s2) v }))) b"
    and dst: "\<forall>i0 i1 i2. i0 * s0 + i1 * s1 + i2 * s2 = ?dst i0 i1 i2"
    using transpose_3d_strides [OF assms(1,2,3), of a b] by blast
  have src: "i0 * (dims ! 1 * dims ! 2) + i1 * dims ! 2 + i2 = ?src i0 i1 i2" for i0 i1 i2
    by (simp add: dims)
  have "transpose_3d a dims perm b =
       for_loop 0 d0 (\<lambda>i0. for_loop 0 d1 (\<lambda>i1. for_loop 0 d2 (\<lambda>i2 b.
             do { v \<leftarrow> rd a (?src i0 i1 i2); wr b (?dst i0 i1 i2) v }))) b"
    unfolding run src dst [rule_format] by (simp add: dims)
  also have "\<dots> = Some ?b'"
    by (rule loop3_fold) (use src_bound dst_bound in blast)
  finally have res: "transpose_3d a dims perm b = Some ?b'" .
  have inj: "inj_on ?w (set ?ks)"
  proof (rule inj_onI)
    fix k k' assume k: "k \<in> set ?ks" "k' \<in> set ?ks" and eq: "?w k = ?w k'"
    obtain i0 i1 i2 where ki: "k = ((i0, i1), i2)" by (metis prod.collapse)
    obtain j0 j1 j2 where kj: "k' = ((j0, j1), j2)" by (metis prod.collapse)
    have ri: "i0 < d0" "i1 < d1" "i2 < d2" and rj: "j0 < d0" "j1 < d1" "j2 < d2"
      using k ki kj by simp_all
    have "permuted perm [i0, i1, i2] = permuted perm [j0, j1, j2]"
      by (rule row_major_unique [OF in_range [OF ri] in_range [OF rj]]) (use eq ki kj in simp)
    then have "[i0, i1, i2] = [j0, j1, j2]"
      by (rule permuted_unique [OF assms(3), rotated 2]) simp_all
    then show "k = k'" using ki kj by simp
  qed
  have "?b' ! ?dst i0 i1 i2 = a ! ?src i0 i1 i2"
    if "i0 < dims ! 0 \<and> i1 < dims ! 1 \<and> i2 < dims ! 2" for i0 i1 i2
  proof -
    have r: "i0 < d0" "i1 < d1" "i2 < d2" using that dims by simp_all
    then have "((i0, i1), i2) \<in> set ?ks" by simp
    moreover have "?w ((i0, i1), i2) < length b" using dst_bound [OF r] by simp
    ultimately show ?thesis
      using fold_writes_nth [OF inj, of "((i0, i1), i2)" b ?v] by simp
  qed
  then show ?thesis using res by (simp add: fold_writes_length)
qed


lemma sum_below_4: "(\<Sum>j < 4. f j) = f 0 + f 1 + f 2 + (f 3 :: nat)" for f :: "nat \<Rightarrow> nat"
  by (simp add: eval_nat_numeral)

lemma transpose_4d_strides:
  assumes "length dims = 4" "distinct perm" "set perm = {0..<4}"
  shows "\<exists>s0 s1 s2 s3.
     transpose_4d a dims perm b =
       for_loop 0 (dims ! 0) (\<lambda>i0.
         for_loop 0 (dims ! 1) (\<lambda>i1.
           for_loop 0 (dims ! 2) (\<lambda>i2.
             for_loop 0 (dims ! 3) (\<lambda>i3 b.
               do { v \<leftarrow> rd a (i0 * (dims ! 1 * dims ! 2 * dims ! 3)
                               + i1 * (dims ! 2 * dims ! 3) + i2 * dims ! 3 + i3);
                    wr b (i0 * s0 + i1 * s1 + i2 * s2 + i3 * s3) v })))) b
     \<and> (\<forall>i0 i1 i2 i3. i0 * s0 + i1 * s1 + i2 * s2 + i3 * s3
           = row_major (permuted perm dims) (permuted perm [i0, i1, i2, i3]))"
proof -
  have len: "length perm = 4" by (rule permutation_length [OF assms(2,3)])
  have rng: "\<forall>p < 4. perm ! p < 4" using assms(3) len by (metis atLeastLessThan_iff nth_mem)
  obtain pind where pind: "for_loop 0 4 (\<lambda>i pind. do { p \<leftarrow> rd perm i; wr pind p (Some i) })
                  [None, None, None, None] = Some pind"
    "length pind = 4" "\<forall>i < 4. pind ! (perm ! i) = Some i"
    using perm_ind_loop [OF assms(2,3)] by (auto simp: eval_nat_numeral)
  note rdq = perm_ind_read [OF assms(3) len pind(2,3)]
  obtain q0 where q0: "q0 < 4" "rd_init pind 0 = Some q0" "perm ! q0 = 0" using rdq [of 0] by auto
  obtain q1 where q1: "q1 < 4" "rd_init pind 1 = Some q1" "perm ! q1 = 1" using rdq [of 1] by auto
  obtain q2 where q2: "q2 < 4" "rd_init pind 2 = Some q2" "perm ! q2 = 2" using rdq [of 2] by auto
  obtain q3 where q3: "q3 < 4" "rd_init pind 3 = Some q3" "perm ! q3 = 3" using rdq [of 3] by auto
  define bstr where "bstr = [dims ! (perm ! 1) * dims ! (perm ! 2) * dims ! (perm ! 3),
                             dims ! (perm ! 2) * dims ! (perm ! 3), dims ! (perm ! 3), 1]"
  have eq: "transpose_4d a dims perm b =
       for_loop 0 (dims ! 0) (\<lambda>i0.
         for_loop 0 (dims ! 1) (\<lambda>i1.
           for_loop 0 (dims ! 2) (\<lambda>i2.
             for_loop 0 (dims ! 3) (\<lambda>i3 b.
               do { v \<leftarrow> rd a (i0 * (dims ! 1 * dims ! 2 * dims ! 3)
                               + i1 * (dims ! 2 * dims ! 3) + i2 * dims ! 3 + i3);
                    wr b (i0 * bstr ! q0 + i1 * bstr ! q1 + i2 * bstr ! q2 + i3 * bstr ! q3) v
                  })))) b"
    using pind(1) q0 q1 q2 q3 rng assms(1) len
    by (simp add: transpose_4d_def rd_in_range bstr_def Let_def)
  have "i0 * bstr ! q0 + i1 * bstr ! q1 + i2 * bstr ! q2 + i3 * bstr ! q3
           = row_major (permuted perm dims) (permuted perm [i0, i1, i2, i3])" for i0 i1 i2 i3
  proof -
    let ?idx = "\<lambda>j. [i0, i1, i2, i3] ! j" and ?q = "\<lambda>j. [q0, q1, q2, q3] ! j"
    have q: "\<forall>j < 4. ?q j < 4 \<and> perm ! (?q j) = j"
      using q0 q1 q2 q3 by (auto simp: less_Suc_eq eval_nat_numeral)
    have "i0 * bstr ! q0 + i1 * bstr ! q1 + i2 * bstr ! q2 + i3 * bstr ! q3
          = (\<Sum>j < 4. ?idx j * bstr ! (?q j))"
      by (simp add: sum_below_4)
    also have "\<dots> = (\<Sum>p < 4. ?idx (perm ! p) * bstr ! p)"
      by (rule stride_reindex [OF assms(2) len rng q])
    also have "\<dots> = row_major (permuted perm dims) (permuted perm [i0, i1, i2, i3])"
    proof -
      obtain p0 p1 p2 p3 where perm: "perm = [p0, p1, p2, p3]"
        using len by (auto simp: length_Suc_conv eval_nat_numeral)
      show ?thesis by (simp add: sum_below_4 perm permuted_def bstr_def)
    qed
    finally show ?thesis .
  qed
  with eq show ?thesis by blast
qed

lemma loop4_fold:
  assumes "\<forall>i0 < d0. \<forall>i1 < d1. \<forall>i2 < d2. \<forall>i3 < d3.
             wa i0 i1 i2 i3 < length a \<and> wb i0 i1 i2 i3 < length b"
  shows "for_loop 0 d0 (\<lambda>i0.
           for_loop 0 d1 (\<lambda>i1.
             for_loop 0 d2 (\<lambda>i2.
               for_loop 0 d3 (\<lambda>i3 b.
                 do { v \<leftarrow> rd a (wa i0 i1 i2 i3); wr b (wb i0 i1 i2 i3) v })))) b
         = Some (fold (\<lambda>k t. t[wb (fst (fst (fst k))) (snd (fst (fst k))) (snd (fst k)) (snd k)
                                 := a ! wa (fst (fst (fst k))) (snd (fst (fst k))) (snd (fst k))
                                          (snd k)])
                   (List.product (List.product (List.product [0..<d0] [0..<d1]) [0..<d2])
                      [0..<d3]) b)"
proof -
  let ?g = "\<lambda>i0 i1 i2 i3 (t :: 'a list). t[wb i0 i1 i2 i3 := a ! wa i0 i1 i2 i3]"
  have l3: "for_loop 0 d3 (\<lambda>i3 b.
                 do { v \<leftarrow> rd a (wa i0 i1 i2 i3); wr b (wb i0 i1 i2 i3) v }) t
              = Some (fold (?g i0 i1 i2) [0..<d3] t)
            \<and> length (fold (?g i0 i1 i2) [0..<d3] t) = length b"
    if "i0 < d0" "i1 < d1" "i2 < d2" "length t = length b" for i0 i1 i2 t
    using copy_loop_fold [of d3 "wa i0 i1 i2" a "wb i0 i1 i2" b t] assms that by simp
  have l2: "for_loop 0 d2 (\<lambda>i2.
               for_loop 0 d3 (\<lambda>i3 b.
                 do { v \<leftarrow> rd a (wa i0 i1 i2 i3); wr b (wb i0 i1 i2 i3) v })) t
              = Some (fold (\<lambda>i2. fold (?g i0 i1 i2) [0..<d3]) [0..<d2] t)
            \<and> length (fold (\<lambda>i2. fold (?g i0 i1 i2) [0..<d3]) [0..<d2] t) = length b"
    if "i0 < d0" "i1 < d1" "length t = length b" for i0 i1 t
    by (rule nested_loop_fold) (use l3 that in auto)
  have l1: "for_loop 0 d1 (\<lambda>i1.
             for_loop 0 d2 (\<lambda>i2.
               for_loop 0 d3 (\<lambda>i3 b.
                 do { v \<leftarrow> rd a (wa i0 i1 i2 i3); wr b (wb i0 i1 i2 i3) v }))) t
              = Some (fold (\<lambda>i1. fold (\<lambda>i2. fold (?g i0 i1 i2) [0..<d3]) [0..<d2]) [0..<d1] t)
            \<and> length (fold (\<lambda>i1. fold (\<lambda>i2. fold (?g i0 i1 i2) [0..<d3]) [0..<d2]) [0..<d1] t)
                = length b"
    if "i0 < d0" "length t = length b" for i0 t
    by (rule nested_loop_fold) (use l2 that in auto)
  have l0: "for_loop 0 d0 (\<lambda>i0.
           for_loop 0 d1 (\<lambda>i1.
             for_loop 0 d2 (\<lambda>i2.
               for_loop 0 d3 (\<lambda>i3 b.
                 do { v \<leftarrow> rd a (wa i0 i1 i2 i3); wr b (wb i0 i1 i2 i3) v })))) b
              = Some (fold (\<lambda>i0. fold (\<lambda>i1. fold (\<lambda>i2. fold (?g i0 i1 i2) [0..<d3]) [0..<d2])
                        [0..<d1]) [0..<d0] b)
            \<and> length (fold (\<lambda>i0. fold (\<lambda>i1. fold (\<lambda>i2. fold (?g i0 i1 i2) [0..<d3]) [0..<d2])
                        [0..<d1]) [0..<d0] b) = length b"
    by (rule nested_loop_fold) (use l1 in auto)
  have "fold (\<lambda>i0. fold (\<lambda>i1. fold (\<lambda>i2. fold (?g i0 i1 i2) [0..<d3]) [0..<d2])
                        [0..<d1]) [0..<d0] b
        = fold (\<lambda>k t. t[wb (fst (fst (fst k))) (snd (fst (fst k))) (snd (fst k)) (snd k)
                                 := a ! wa (fst (fst (fst k))) (snd (fst (fst k))) (snd (fst k))
                                          (snd k)])
                   (List.product (List.product (List.product [0..<d0] [0..<d1]) [0..<d2])
                      [0..<d3]) b"
    by (simp add: fold_product case_prod_unfold)
  with l0 show ?thesis by simp
qed

lemma transpose_4d_entries:
  assumes "length dims = 4" "distinct perm" "set perm = {0..<4}"
    and "prod_list dims \<le> length a" "prod_list dims \<le> length b"
  shows "\<exists>b'. transpose_4d a dims perm b = Some b' \<and> length b' = length b
           \<and> (\<forall>i0 i1 i2 i3. i0 < dims ! 0 \<and> i1 < dims ! 1 \<and> i2 < dims ! 2 \<and> i3 < dims ! 3 \<longrightarrow>
                 b' ! row_major (permuted perm dims) (permuted perm [i0, i1, i2, i3])
                   = a ! row_major dims [i0, i1, i2, i3])"
proof -
  obtain d0 d1 d2 d3 where dims: "dims = [d0, d1, d2, d3]"
    using assms(1) by (auto simp: length_Suc_conv eval_nat_numeral)
  let ?src = "\<lambda>i0 i1 i2 i3. row_major dims [i0, i1, i2, i3]"
  let ?dst = "\<lambda>i0 i1 i2 i3. row_major (permuted perm dims) (permuted perm [i0, i1, i2, i3])"
  let ?ks = "List.product (List.product (List.product [0..<d0] [0..<d1]) [0..<d2]) [0..<d3]"
  let ?w = "\<lambda>k :: ((nat \<times> nat) \<times> nat) \<times> nat.
              ?dst (fst (fst (fst k))) (snd (fst (fst k))) (snd (fst k)) (snd k)"
  let ?v = "\<lambda>k :: ((nat \<times> nat) \<times> nat) \<times> nat.
              a ! ?src (fst (fst (fst k))) (snd (fst (fst k))) (snd (fst k)) (snd k)"
  let ?b' = "fold (\<lambda>k t. t[?w k := ?v k]) ?ks b"
  have set4: "set perm = {0..<length dims}" using assms(1,3) by simp
  have in_range: "list_all2 (<) (permuted perm [i0, i1, i2, i3]) (permuted perm dims)"
    if "i0 < d0" "i1 < d1" "i2 < d2" "i3 < d3" for i0 i1 i2 i3
    by (rule permuted_in_range [OF assms(3)])
      (use that dims in \<open>auto simp: less_Suc_eq eval_nat_numeral\<close>)
  have src_bound: "?src i0 i1 i2 i3 < length a"
    if "i0 < d0" "i1 < d1" "i2 < d2" "i3 < d3" for i0 i1 i2 i3
  proof -
    have "list_all2 (<) [i0, i1, i2, i3] dims" using that dims by simp
    from row_major_bound [OF this] show ?thesis using assms(4) by simp
  qed
  have dst_bound: "?dst i0 i1 i2 i3 < length b"
    if "i0 < d0" "i1 < d1" "i2 < d2" "i3 < d3" for i0 i1 i2 i3
    using row_major_bound [OF in_range [OF that]] prod_list_permuted [OF assms(2) set4] assms(5)
    by simp
  obtain s0 s1 s2 s3 where
    run: "transpose_4d a dims perm b =
       for_loop 0 (dims ! 0) (\<lambda>i0.
         for_loop 0 (dims ! 1) (\<lambda>i1.
           for_loop 0 (dims ! 2) (\<lambda>i2.
             for_loop 0 (dims ! 3) (\<lambda>i3 b.
               do { v \<leftarrow> rd a (i0 * (dims ! 1 * dims ! 2 * dims ! 3)
                               + i1 * (dims ! 2 * dims ! 3) + i2 * dims ! 3 + i3);
                    wr b (i0 * s0 + i1 * s1 + i2 * s2 + i3 * s3) v })))) b"
    and dst: "\<forall>i0 i1 i2 i3. i0 * s0 + i1 * s1 + i2 * s2 + i3 * s3 = ?dst i0 i1 i2 i3"
    using transpose_4d_strides [OF assms(1,2,3), of a b] by blast
  have src: "i0 * (dims ! 1 * dims ! 2 * dims ! 3) + i1 * (dims ! 2 * dims ! 3) + i2 * dims ! 3 + i3
             = ?src i0 i1 i2 i3" for i0 i1 i2 i3
    by (simp add: dims algebra_simps)
  have "transpose_4d a dims perm b =
       for_loop 0 d0 (\<lambda>i0. for_loop 0 d1 (\<lambda>i1. for_loop 0 d2 (\<lambda>i2. for_loop 0 d3 (\<lambda>i3 b.
             do { v \<leftarrow> rd a (?src i0 i1 i2 i3); wr b (?dst i0 i1 i2 i3) v })))) b"
    unfolding run src dst [rule_format] by (simp add: dims)
  also have "\<dots> = Some ?b'"
    by (rule loop4_fold) (use src_bound dst_bound in blast)
  finally have res: "transpose_4d a dims perm b = Some ?b'" .
  have inj: "inj_on ?w (set ?ks)"
  proof (rule inj_onI)
    fix k k' assume k: "k \<in> set ?ks" "k' \<in> set ?ks" and eq: "?w k = ?w k'"
    obtain i0 i1 i2 i3 where ki: "k = (((i0, i1), i2), i3)" by (metis prod.collapse)
    obtain j0 j1 j2 j3 where kj: "k' = (((j0, j1), j2), j3)" by (metis prod.collapse)
    have ri: "i0 < d0" "i1 < d1" "i2 < d2" "i3 < d3"
      and rj: "j0 < d0" "j1 < d1" "j2 < d2" "j3 < d3"
      using k ki kj by simp_all
    have "permuted perm [i0, i1, i2, i3] = permuted perm [j0, j1, j2, j3]"
      by (rule row_major_unique [OF in_range [OF ri] in_range [OF rj]]) (use eq ki kj in simp)
    then have "[i0, i1, i2, i3] = [j0, j1, j2, j3]"
      by (rule permuted_unique [OF assms(3), rotated 2]) simp_all
    then show "k = k'" using ki kj by simp
  qed
  have "?b' ! ?dst i0 i1 i2 i3 = a ! ?src i0 i1 i2 i3"
    if "i0 < dims ! 0 \<and> i1 < dims ! 1 \<and> i2 < dims ! 2 \<and> i3 < dims ! 3" for i0 i1 i2 i3
  proof -
    have r: "i0 < d0" "i1 < d1" "i2 < d2" "i3 < d3" using that dims by simp_all
    then have "(((i0, i1), i2), i3) \<in> set ?ks" by simp
    moreover have "?w (((i0, i1), i2), i3) < length b" using dst_bound [OF r] by simp
    ultimately show ?thesis
      using fold_writes_nth [OF inj, of "(((i0, i1), i2), i3)" b ?v] by simp
  qed
  then show ?thesis using res by (simp add: fold_writes_length)
qed


text \<open>
  Claim C1. For a dims sequence of length 3 (resp. 4), a \<open>perm\<close> that is a bijection
  on the axis indices, and buffers holding at least the product of the extents,
  \<open>transpose_3d\<close> (resp. \<open>transpose_4d\<close>) returns, and for every multi-index
  \<open>(i0, ..., i(n-1))\<close> over \<open>dims\<close> the output, read as a row-major tensor of shape
  \<open>dims[perm[0..n)]\<close>, holds at the multi-index \<open>(i[perm[0]], ..., i[perm[n-1]])\<close> the
  element of \<open>a\<close> at the row-major index of \<open>(i0, ..., i(n-1))\<close> over \<open>dims\<close>.
\<close>

theorem transpose_3d_4d_permute_axes:
  "(length dims = 3 \<and> distinct perm \<and> set perm = {0..<3}
      \<and> prod_list dims \<le> length a \<and> prod_list dims \<le> length b \<longrightarrow>
      (\<exists>b'. transpose_3d a dims perm b = Some b' \<and> length b' = length b
         \<and> (\<forall>i0 i1 i2. i0 < dims ! 0 \<and> i1 < dims ! 1 \<and> i2 < dims ! 2 \<longrightarrow>
               b' ! row_major (permuted perm dims) (permuted perm [i0, i1, i2])
                 = a ! row_major dims [i0, i1, i2])))
   \<and> (length shape = 4 \<and> distinct order \<and> set order = {0..<4}
      \<and> prod_list shape \<le> length src \<and> prod_list shape \<le> length dst \<longrightarrow>
      (\<exists>b'. transpose_4d src shape order dst = Some b' \<and> length b' = length dst
         \<and> (\<forall>i0 i1 i2 i3. i0 < shape ! 0 \<and> i1 < shape ! 1 \<and> i2 < shape ! 2 \<and> i3 < shape ! 3 \<longrightarrow>
               b' ! row_major (permuted order shape) (permuted order [i0, i1, i2, i3])
                 = src ! row_major shape [i0, i1, i2, i3])))"
  using transpose_3d_entries [of dims perm a b] transpose_4d_entries [of shape order src dst]
  by blast

theorem transpose_3d_4d_permute_axes_witness:
  "transpose_3d [1, 2, 3, 4, 5, 6 :: int] [1, 2, 3] [2, 0, 1] [0, 0, 0, 0, 0, 0]
     = Some [1, 4, 2, 5, 3, 6]
   \<and> transpose_4d [1, 2, 3, 4, 5, 6, 7, 8, 9, 10, 11, 12 :: int] [2, 1, 2, 3] [3, 0, 2, 1]
       [0, 0, 0, 0, 0, 0, 0, 0, 0, 0, 0, 0]
     = Some [1, 4, 7, 10, 2, 5, 8, 11, 3, 6, 9, 12]
   \<and> (\<exists>b'. transpose_3d [1, 2, 3, 4, 5, 6 :: int] [1, 2, 3] [2, 0, 1] [0, 0, 0, 0, 0, 0] = Some b'
         \<and> length b' = length [0, 0, 0, 0, 0, 0 :: int]
         \<and> (\<forall>i0 i1 i2. i0 < [1, 2, 3] ! 0 \<and> i1 < [1, 2, 3] ! 1 \<and> i2 < [1, 2, 3] ! 2 \<longrightarrow>
               b' ! row_major (permuted [2, 0, 1] [1, 2, 3]) (permuted [2, 0, 1] [i0, i1, i2])
                 = [1, 2, 3, 4, 5, 6 :: int] ! row_major [1, 2, 3] [i0, i1, i2]))
   \<and> (\<exists>b'. transpose_4d [1, 2, 3, 4, 5, 6, 7, 8, 9, 10, 11, 12 :: int] [2, 1, 2, 3] [3, 0, 2, 1]
              [0, 0, 0, 0, 0, 0, 0, 0, 0, 0, 0, 0] = Some b'
         \<and> length b' = length [0, 0, 0, 0, 0, 0, 0, 0, 0, 0, 0, 0 :: int]
         \<and> (\<forall>i0 i1 i2 i3. i0 < [2, 1, 2, 3] ! 0 \<and> i1 < [2, 1, 2, 3] ! 1
                 \<and> i2 < [2, 1, 2, 3] ! 2 \<and> i3 < [2, 1, 2, 3] ! 3 \<longrightarrow>
               b' ! row_major (permuted [3, 0, 2, 1] [2, 1, 2, 3])
                      (permuted [3, 0, 2, 1] [i0, i1, i2, i3])
                 = [1, 2, 3, 4, 5, 6, 7, 8, 9, 10, 11, 12 :: int]
                     ! row_major [2, 1, 2, 3] [i0, i1, i2, i3]))"
proof -
  have s3: "set [2, 0, 1 :: nat] = {0..<3}" and s4: "set [3, 0, 2, 1 :: nat] = {0..<4}"
    by (auto simp: eval_nat_numeral less_Suc_eq)
  have h3: "length [1, 2, 3 :: nat] = 3 \<and> distinct [2, 0, 1 :: nat] \<and> set [2, 0, 1 :: nat] = {0..<3}
      \<and> prod_list [1, 2, 3 :: nat] \<le> length [1, 2, 3, 4, 5, 6 :: int]
      \<and> prod_list [1, 2, 3 :: nat] \<le> length [0, 0, 0, 0, 0, 0 :: int]"
    using s3 by simp
  have h4: "length [2, 1, 2, 3 :: nat] = 4 \<and> distinct [3, 0, 2, 1 :: nat]
      \<and> set [3, 0, 2, 1 :: nat] = {0..<4}
      \<and> prod_list [2, 1, 2, 3 :: nat] \<le> length [1, 2, 3, 4, 5, 6, 7, 8, 9, 10, 11, 12 :: int]
      \<and> prod_list [2, 1, 2, 3 :: nat] \<le> length [0, 0, 0, 0, 0, 0, 0, 0, 0, 0, 0, 0 :: int]"
    using s4 by simp
  note t = transpose_3d_4d_permute_axes
    [of "[1, 2, 3]" "[2, 0, 1]" "[1, 2, 3, 4, 5, 6 :: int]" "[0, 0, 0, 0, 0, 0]"
        "[2, 1, 2, 3]" "[3, 0, 2, 1]" "[1, 2, 3, 4, 5, 6, 7, 8, 9, 10, 11, 12 :: int]"
        "[0, 0, 0, 0, 0, 0, 0, 0, 0, 0, 0, 0]"]
  have "transpose_3d [1, 2, 3, 4, 5, 6 :: int] [1, 2, 3] [2, 0, 1] [0, 0, 0, 0, 0, 0]
     = Some [1, 4, 2, 5, 3, 6]"
    by code_simp
  moreover have "transpose_4d [1, 2, 3, 4, 5, 6, 7, 8, 9, 10, 11, 12 :: int] [2, 1, 2, 3]
       [3, 0, 2, 1] [0, 0, 0, 0, 0, 0, 0, 0, 0, 0, 0, 0]
     = Some [1, 4, 7, 10, 2, 5, 8, 11, 3, 6, 9, 12]"
    by code_simp
  ultimately show ?thesis
    using t [THEN conjunct1, rule_format, OF h3] t [THEN conjunct2, rule_format, OF h4]
    by (intro conjI)
qed

end
